theory Spec2Isabelle
  imports Main "HOL-Library.Word" "HOL-Library.Multiset" "HOL-Library.Signed_Division"
begin

unbundle bit_operations_syntax

section \<open>Distributed map-reduce over the shards\<close>

text \<open>
  \<^verbatim>\<open>X::cpu_id_squared\<close> of \<^verbatim>\<open>tests/distributed_test.cc\<close>: the shard id is the
  \<^verbatim>\<open>unsigned\<close> that \<^verbatim>\<open>engine().cpu_id()\<close> returns, the product is taken in
  \<^verbatim>\<open>unsigned\<close> arithmetic and handed back as an \<^verbatim>\<open>int\<close>.
\<close>

definition cpu_id_squared :: "32 word \<Rightarrow> 32 word" where
  "cpu_id_squared cid = cid * cid"

text \<open>
  Modelled from the spec: \<^verbatim>\<open>distributed<T>::map_reduce0\<close> lives in
  \<^verbatim>\<open>core/distributed.hh\<close>, which is not among the sources. The spec has it invoke the
  mapper on each of the shards \<open>0 .. N-1\<close> and reduce the results, starting from the
  initial value; the shards are visited in the order of their ids.
\<close>

definition map_reduce0 :: "nat \<Rightarrow> (32 word \<Rightarrow> 'r) \<Rightarrow> 'a \<Rightarrow> ('a \<Rightarrow> 'r \<Rightarrow> 'a) \<Rightarrow> 'a" where
  "map_reduce0 smp_count mapper initial reduce =
     foldl (\<lambda>acc cid. reduce acc (mapper (of_nat cid))) initial [0..<smp_count]"

text \<open>
  The call of \<^verbatim>\<open>test_map_reduce\<close>: \<^verbatim>\<open>x.map_reduce0(&X::cpu_id_squared, 0, std::plus<int>())\<close>.
\<close>

definition test_map_reduce_result :: "nat \<Rightarrow> 32 word" where
  "test_map_reduce_result smp_count = map_reduce0 smp_count cpu_id_squared 0 (+)"

lemma sum_of_squares_nat:
  "6 * (\<Sum>i<n. i * i) = (n - 1) * n * (2 * n - 1)" for n :: nat
proof (induction n)
  case 0
  show ?case by simp
next
  case (Suc n)
  show ?case
  proof (cases n)
    case 0
    then show ?thesis by simp
  next
    case (Suc m)
    with Suc.IH show ?thesis by (simp add: algebra_simps)
  qed
qed

lemma foldl_squares:
  "foldl (\<lambda>acc cid. acc + cpu_id_squared (of_nat cid)) a [0..<n] = a + of_nat (\<Sum>i<n. i * i)"
  by (induction n arbitrary: a) (simp_all add: cpu_id_squared_def add.assoc)

lemma sum_of_squares_int:
  "int (\<Sum>i<n. i * i) = (int n - 1) * int n * (2 * int n - 1) div 6"
proof -
  have "6 * int (\<Sum>i<n. i * i) = (int n - 1) * int n * (2 * int n - 1)"
  proof (cases n)
    case 0
    then show ?thesis by simp
  next
    case (Suc m)
    have "6 * int (\<Sum>i<n. i * i) = int (6 * (\<Sum>i<n. i * i))" by simp
    also have "\<dots> = int ((n - 1) * n * (2 * n - 1))" by (simp only: sum_of_squares_nat)
    also have "\<dots> = (int n - 1) * int n * (2 * int n - 1)" using Suc by (simp add: algebra_simps)
    finally show ?thesis .
  qed
  then show ?thesis by simp
qed

lemma squares_mono: "m \<le> n \<Longrightarrow> (\<Sum>i<m. i * i) \<le> (\<Sum>i<n. i * (i::nat))"
  by (rule sum_mono2) auto

lemma squares_1861: "(\<Sum>i<1861. i * (i::nat)) < 2 ^ 31"
proof -
  have "6 * (\<Sum>i<1861. i * (i::nat)) = (1861 - 1) * 1861 * (2 * 1861 - 1)"
    by (rule sum_of_squares_nat)
  then show ?thesis by simp
qed

lemma sint_of_nat_small: "x < 2 ^ 31 \<Longrightarrow> sint (of_nat x :: 32 word) = int x"
  by (simp add: signed_of_nat signed_take_bit_int_eq_self)

text \<open>
  Claim C6. On \<open>N\<close> shards, mapping \<^verbatim>\<open>X::cpu_id_squared\<close> over the shards and summing from
  0 gives \<open>(N-1) * N * (2N-1) / 6\<close>: as a 32-bit value for every \<open>N\<close>, and as the exact
  integer as long as the sum fits the \<^verbatim>\<open>int\<close> the test reduces in, that is up to 1861
  shards.
\<close>

theorem map_reduce_sum_of_squares:
  "test_map_reduce_result N = word_of_int ((int N - 1) * int N * (2 * int N - 1) div 6) \<and>
   (N \<le> 1861 \<longrightarrow>
      sint (test_map_reduce_result N) = (int N - 1) * int N * (2 * int N - 1) div 6)"
proof -
  have r: "test_map_reduce_result N = of_nat (\<Sum>i<N. i * i)"
    by (simp add: test_map_reduce_result_def map_reduce0_def foldl_squares)
  have a: "test_map_reduce_result N = word_of_int ((int N - 1) * int N * (2 * int N - 1) div 6)"
    unfolding r sum_of_squares_int [symmetric] by simp
  have b: "sint (test_map_reduce_result N) = (int N - 1) * int N * (2 * int N - 1) div 6"
    if "N \<le> 1861"
  proof -
    have "(\<Sum>i<N. i * i) < 2 ^ 31"
      using squares_mono [OF that] squares_1861 by simp
    then have "sint (of_nat (\<Sum>i<N. i * i) :: 32 word) = int (\<Sum>i<N. i * i)"
      by (rule sint_of_nat_small)
    then show ?thesis unfolding r sum_of_squares_int .
  qed
  from a b show ?thesis by blast
qed

theorem map_reduce_sum_of_squares_witness:
  "(4::nat) \<le> 1861 \<and> sint (test_map_reduce_result 4) = 14"
  using map_reduce_sum_of_squares [of 4] by simp

section \<open>Bulk reads of a file opened for direct I/O\<close>

type_synonym u64 = "64 word"

text \<open>
  What a failed future carries: a \<^verbatim>\<open>std::system_error\<close> with its error code, or an
  exception of any other type.
\<close>

datatype io_error = System_error nat | Other_exception nat

definition EINVAL :: nat where
  "EINVAL = 22"

text \<open>
  A \<^verbatim>\<open>temporary_buffer<CharType>\<close> is the list of its cells; a cell that was allocated and
  never written is \<open>None\<close>.

  Modelled from the spec: \<^verbatim>\<open>core/temporary_buffer.hh\<close> is not among the sources.
  \<^verbatim>\<open>aligned(alignment, size)\<close> allocates \<open>size\<close> cells, \<^verbatim>\<open>trim(pos)\<close> keeps the first
  \<open>pos\<close> cells and \<^verbatim>\<open>trim_front(pos)\<close> cuts the first \<open>pos\<close> cells off.
\<close>

type_synonym 'a temporary_buffer = "'a option list"

definition aligned :: "u64 \<Rightarrow> u64 \<Rightarrow> 'a temporary_buffer" where
  "aligned alignment sz = replicate (unat sz) None"

definition buf_size :: "'a temporary_buffer \<Rightarrow> u64" where
  "buf_size b = of_nat (length b)"

definition trim :: "u64 \<Rightarrow> 'a temporary_buffer \<Rightarrow> 'a temporary_buffer" where
  "trim pos b = take (unat pos) b"

definition trim_front :: "u64 \<Rightarrow> 'a temporary_buffer \<Rightarrow> 'a temporary_buffer" where
  "trim_front pos b = drop (unat pos) b"

text \<open>
  \<^verbatim>\<open>memcpy(b + at, src, n)\<close>: the cells \<open>at ..< at + n\<close> of \<open>b\<close> take the first \<open>n\<close>
  values of \<open>src\<close>.
\<close>

definition memcpy :: "'a temporary_buffer \<Rightarrow> nat \<Rightarrow> 'a temporary_buffer \<Rightarrow> nat \<Rightarrow> 'a temporary_buffer" where
  "memcpy b at src n = take at b @ take n src @ drop (at + n) b"

text \<open>
  Modelled from the spec: \<^verbatim>\<open>align_up\<close> is declared in \<^verbatim>\<open>core/align.hh\<close>, which is not
  among the sources. It rounds \<open>v\<close> up to the next multiple of the alignment with the same
  mask arithmetic that \<^verbatim>\<open>dma_read_bulk\<close> uses to round the offset down.
\<close>

definition align_up :: "u64 \<Rightarrow> u64 \<Rightarrow> u64" where
  "align_up v align = (v + align - 1) AND NOT (align - 1)"

text \<open>
  The file implementation behind \<^verbatim>\<open>file::dma_read(pos, buffer, len)\<close> is the virtual
  \<^verbatim>\<open>file_impl::read_dma\<close>; it is a parameter here. Given the state of the device, the
  position and the length, it fails or returns the bytes it read, and the next state of
  the device.
\<close>

type_synonym ('d, 'a) read_dma = "'d \<Rightarrow> u64 \<Rightarrow> u64 \<Rightarrow> (io_error + 'a list) \<times> 'd"

record ('d, 'a) dma_file =
  read_dma :: "('d, 'a) read_dma"
  disk_read_dma_alignment :: u64
  memory_dma_alignment :: u64

text \<open>
  The state the reads run in: the device, and the reads issued so far, oldest first, each
  with its position, its length and what it returned.
\<close>

record ('d, 'a) io_state =
  device :: 'd
  reads :: "(u64 \<times> u64 \<times> (io_error + 'a list)) list"

text \<open>
  \<^verbatim>\<open>file::dma_read(aligned_pos, aligned_buffer, aligned_len)\<close>: one read of the device. The
  bytes go to the front of the buffer, and the future carries their number.
\<close>

definition dma_read ::
  "('d, 'a) dma_file \<Rightarrow> u64 \<Rightarrow> 'a temporary_buffer \<Rightarrow> u64 \<Rightarrow> ('d, 'a) io_state \<Rightarrow>
     (io_error + (u64 \<times> 'a temporary_buffer)) \<times> ('d, 'a) io_state" where
  "dma_read f aligned_pos aligned_buffer aligned_len s =
     (case read_dma f (device s) aligned_pos aligned_len of (r, d') \<Rightarrow>
        (case r of
           Inl e \<Rightarrow> Inl e
         | Inr bytes \<Rightarrow>
             Inr (of_nat (length bytes), map Some bytes @ drop (length bytes) aligned_buffer),
         \<lparr>device = d', reads = reads s @ [(aligned_pos, aligned_len, r)]\<rparr>))"

record 'a read_state =
  eof :: bool
  buf :: "'a temporary_buffer"
  pos :: u64
  offset :: u64
  to_read :: u64
  front :: u64

definition make_read_state :: "u64 \<Rightarrow> u64 \<Rightarrow> u64 \<Rightarrow> u64 \<Rightarrow> u64 \<Rightarrow> 'a read_state" where
  "make_read_state offset' front' to_read' memory_alignment disk_alignment =
     \<lparr>eof = False,
      buf = aligned memory_alignment (align_up to_read' disk_alignment),
      pos = 0,
      offset = offset',
      to_read = to_read',
      front = front'\<rparr>"

definition read_done :: "'a read_state \<Rightarrow> bool" where
  "read_done rs \<longleftrightarrow> eof rs \<or> pos rs \<ge> to_read rs"

definition have_good_bytes :: "'a read_state \<Rightarrow> bool" where
  "have_good_bytes rs \<longleftrightarrow> pos rs > front rs"

definition trim_buf_before_ret :: "'a read_state \<Rightarrow> 'a read_state" where
  "trim_buf_before_ret rs =
     (if have_good_bytes rs
      then rs\<lparr>buf := trim_front (front rs) (trim (pos rs) (buf rs))\<rparr>
      else rs\<lparr>buf := trim 0 (buf rs)\<rparr>)"

definition cur_offset :: "'a read_state \<Rightarrow> u64" where
  "cur_offset rs = offset rs + pos rs"

definition left_space :: "'a read_state \<Rightarrow> u64" where
  "left_space rs = buf_size (buf rs) - pos rs"

definition left_to_read :: "'a read_state \<Rightarrow> u64" where
  "left_to_read rs = to_read rs - pos rs"

definition append_new_data :: "'a read_state \<Rightarrow> 'a temporary_buffer \<Rightarrow> 'a read_state" where
  "append_new_data rs new_data =
     (let to_copy = min (left_space rs) (buf_size new_data)
      in rs\<lparr>buf := memcpy (buf rs) (unat (pos rs)) new_data (unat to_copy),
             pos := pos rs + to_copy\<rparr>)"

text \<open>
  \<^verbatim>\<open>file::read_maybe_eof\<close>: a read into a fresh aligned buffer. A \<^verbatim>\<open>std::system_error\<close>
  whose code is \<^verbatim>\<open>EINVAL\<close> is caught and answered with the buffer trimmed to nothing; every
  other exception is thrown on.
\<close>

definition read_maybe_eof ::
  "('d, 'a) dma_file \<Rightarrow> u64 \<Rightarrow> u64 \<Rightarrow> ('d, 'a) io_state \<Rightarrow>
     (io_error + 'a temporary_buffer) \<times> ('d, 'a) io_state" where
  "read_maybe_eof f pos' len s =
     (let b = aligned (memory_dma_alignment f) (align_up len (disk_read_dma_alignment f))
      in case dma_read f pos' b (buf_size b) s of
           (Inr (sz, b'), s') \<Rightarrow> (Inr (trim sz b'), s')
         | (Inl (System_error code), s') \<Rightarrow>
             (if code = EINVAL then (Inr (trim 0 b), s') else (Inl (System_error code), s'))
         | (Inl e, s') \<Rightarrow> (Inl e, s'))"

text \<open>
  The \<^verbatim>\<open>do_until\<close> loop of \<^verbatim>\<open>dma_read_bulk\<close>: until the state is done, read on from the
  current offset; a buffer with bytes in it is appended, an empty one is the end of the
  file. A failed read ends the loop with its failure. Nothing in the loop bounds the
  number of its rounds, so not returning is the value \<open>None\<close>.
\<close>

partial_function (option) read_more ::
  "('d, 'a) dma_file \<Rightarrow> 'a read_state \<Rightarrow> ('d, 'a) io_state \<Rightarrow>
     ((io_error + 'a read_state) \<times> ('d, 'a) io_state) option" where
  "read_more f rstate s =
     (if read_done rstate then Some (Inr rstate, s)
      else case read_maybe_eof f (cur_offset rstate) (left_to_read rstate) s of
             (Inl e, s') \<Rightarrow> Some (Inl e, s')
           | (Inr buf1, s') \<Rightarrow>
               read_more f
                 (if buf_size buf1 \<noteq> 0 then append_new_data rstate buf1
                  else rstate\<lparr>eof := True\<rparr>) s')"

declare read_more.simps [code]

text \<open>
  \<^verbatim>\<open>file::dma_read_bulk(offset, range_size)\<close>. The result is the failure of the future or
  the buffer it resolves to, with the state after the reads.
\<close>

definition dma_read_bulk ::
  "('d, 'a) dma_file \<Rightarrow> u64 \<Rightarrow> u64 \<Rightarrow> ('d, 'a) io_state \<Rightarrow>
     ((io_error + 'a temporary_buffer) \<times> ('d, 'a) io_state) option" where
  "dma_read_bulk f offset0 range_size0 s =
     (let front' = offset0 AND (disk_read_dma_alignment f - 1);
          offset' = offset0 - front';
          range_size = range_size0 + front';
          rstate = make_read_state offset' front' range_size
                     (memory_dma_alignment f) (disk_read_dma_alignment f)
      in case dma_read f offset' (buf rstate) (buf_size (buf rstate)) s of
           (Inl e, s1) \<Rightarrow> Some (Inl e, s1)
         | (Inr (sz, b), s1) \<Rightarrow>
             (case read_more f (rstate\<lparr>buf := b, pos := sz\<rparr>) s1 of
                None \<Rightarrow> None
              | Some (Inl e, s2) \<Rightarrow> Some (Inl e, s2)
              | Some (Inr rstate', s2) \<Rightarrow> Some (Inr (buf (trim_buf_before_ret rstate')), s2)))"

text \<open>
  A file as the comment above \<^verbatim>\<open>read_maybe_eof\<close> describes direct I/O: a read whose position
  or length is not a multiple of the alignment fails with \<^verbatim>\<open>EINVAL\<close>, any other read
  returns the bytes from the position on, up to the length or the end of the file.
\<close>

definition direct_read :: "'a list \<Rightarrow> u64 \<Rightarrow> (unit, 'a) read_dma" where
  "direct_read content alignment d pos' len =
     (if unat pos' mod unat alignment \<noteq> 0 \<or> unat len mod unat alignment \<noteq> 0
      then (Inl (System_error EINVAL), d)
      else (Inr (take (unat len) (drop (unat pos') content)), d))"

definition direct_file :: "'a list \<Rightarrow> u64 \<Rightarrow> (unit, 'a) dma_file" where
  "direct_file content alignment =
     \<lparr>read_dma = direct_read content alignment,
      disk_read_dma_alignment = alignment,
      memory_dma_alignment = alignment\<rparr>"

definition start :: "(unit, 'a) io_state" where
  "start = \<lparr>device = (), reads = []\<rparr>"

text \<open>
  A file on a device that gives out: the state of the device is the number of reads that
  still go well, each returning the bytes from the position on, up to the length or the end
  of the file; every later read fails with the given error.
\<close>

definition failing_read :: "'a list \<Rightarrow> io_error \<Rightarrow> (nat, 'a) read_dma" where
  "failing_read content e d pos' len =
     (if d = 0 then (Inl e, 0)
      else (Inr (take (unat len) (drop (unat pos') content)), d - 1))"

definition failing_file :: "'a list \<Rightarrow> io_error \<Rightarrow> u64 \<Rightarrow> (nat, 'a) dma_file" where
  "failing_file content e alignment =
     \<lparr>read_dma = failing_read content e,
      disk_read_dma_alignment = alignment,
      memory_dma_alignment = alignment\<rparr>"

text \<open>
  A file whose reads return at most a given number of bytes at once, fewer than they were
  asked for.
\<close>

definition short_read :: "'a list \<Rightarrow> nat \<Rightarrow> (unit, 'a) read_dma" where
  "short_read content most d pos' len =
     (Inr (take (min most (unat len)) (drop (unat pos') content)), d)"

definition short_file :: "'a list \<Rightarrow> nat \<Rightarrow> u64 \<Rightarrow> (unit, 'a) dma_file" where
  "short_file content most alignment =
     \<lparr>read_dma = short_read content most,
      disk_read_dma_alignment = alignment,
      memory_dma_alignment = alignment\<rparr>"

text \<open>
  The contract of a single read, as its documentation has it (``number of bytes actually
  read''): a successful read returns at most the length it was asked for.
\<close>

definition read_dma_bounded :: "('d, 'a) dma_file \<Rightarrow> bool" where
  "read_dma_bounded f \<longleftrightarrow>
     (\<forall>d p l bytes d'. read_dma f d p l = (Inr bytes, d') \<longrightarrow> length bytes \<le> unat l)"

text \<open>The bytes that a sequence of reads returned, in the order of the reads.\<close>

definition bytes_read :: "(u64 \<times> u64 \<times> (io_error + 'a list)) list \<Rightarrow> 'a list" where
  "bytes_read evs = concat (map (\<lambda>(p, l, r). case r of Inr bytes \<Rightarrow> bytes | Inl e \<Rightarrow> []) evs)"

text \<open>
  A sequence of reads was issued to the device, one after the other, from the state \<open>d\<close>
  on: each has the result that the file implementation gives for its position and length
  in the state the reads before it left, and \<open>d'\<close> is the state after the last.
\<close>

fun issued ::
  "('d, 'a) dma_file \<Rightarrow> 'd \<Rightarrow> (u64 \<times> u64 \<times> (io_error + 'a list)) list \<Rightarrow> 'd \<Rightarrow> bool" where
  "issued f d [] d' \<longleftrightarrow> d' = d"
| "issued f d ((p, l, r) # evs) d' \<longleftrightarrow>
     fst (read_dma f d p l) = r \<and> issued f (snd (read_dma f d p l)) evs d'"

text \<open>
  What the read-copy sequence keeps true of its state, for the bytes \<open>B\<close> read so far: the
  buffer has the size it was allocated with, \<open>pos\<close> counts the bytes of \<open>B\<close> that fit, and
  the first \<open>pos\<close> cells of the buffer hold them.
\<close>

definition holds :: "u64 \<Rightarrow> 'a read_state \<Rightarrow> 'a list \<Rightarrow> bool" where
  "holds alignment rs B \<longleftrightarrow>
     length (buf rs) = unat (align_up (to_read rs) alignment) \<and>
     unat (pos rs) = min (unat (align_up (to_read rs) alignment)) (length B) \<and>
     take (unat (pos rs)) (buf rs) = map Some (take (unat (align_up (to_read rs) alignment)) B)"

lemma unat_of_nat_small: "n < 2 ^ 64 \<Longrightarrow> unat (of_nat n :: u64) = n"
  by (simp add: unat_of_nat)

lemma unat_min_word: "unat (min a b) = min (unat a) (unat (b :: u64))"
  by (simp add: min_def word_le_nat_alt)

lemma unat_take_bit_u64: "unat (take_bit k x :: u64) = unat x mod 2 ^ k"
proof -
  have "unat (take_bit k x) = take_bit k (unat x)" by (rule unsigned_take_bit_eq)
  also have "\<dots> = unat x mod 2 ^ k" by (rule take_bit_eq_mod)
  finally show ?thesis .
qed

lemma unat_front:
  "unat (x AND (2 ^ k - 1) :: u64) = unat x mod 2 ^ k"
proof -
  have "x AND (2 ^ k - 1) = take_bit k x"
    by (simp only: take_bit_eq_mask mask_eq_decr_exp)
  then show ?thesis
    by (simp only: unat_take_bit_u64)
qed

lemma and_not_low_bits: "x AND NOT (2 ^ k - 1) = push_bit k (drop_bit k (x :: u64))"
proof -
  have "x AND NOT (mask k) = push_bit k (drop_bit k x)"
    by (rule bit_eqI) (auto simp: bit_simps)
  then show ?thesis by (simp only: mask_eq_decr_exp)
qed

lemma unat_round_down: "unat (push_bit k (drop_bit k (x :: u64))) = unat x div 2 ^ k * 2 ^ k"
proof -
  have "unat x div 2 ^ k * 2 ^ k \<le> unat x" by simp
  also have "unat x < 2 ^ 64" using unsigned_less [of x] by simp
  finally have lt: "unat x div 2 ^ k * 2 ^ k < 2 ^ 64" .
  have "unat (push_bit k (drop_bit k x)) = take_bit 64 (push_bit k (unat (drop_bit k x)))"
    by (simp only: unsigned_push_bit_eq) simp
  also have "unat (drop_bit k x) = drop_bit k (unat x)"
  proof -
    have "take_bit 64 (unat x) = unat x"
      using unsigned_less [of x] by (intro take_bit_nat_eq_self) simp
    moreover have "unat (drop_bit k x) = drop_bit k (take_bit 64 (unat x))"
      by (simp only: unsigned_drop_bit_eq) simp
    ultimately show ?thesis by simp
  qed
  also have "push_bit k (drop_bit k (unat x)) = unat x div 2 ^ k * 2 ^ k"
    by (simp only: push_bit_eq_mult drop_bit_eq_div)
  also have "take_bit 64 (unat x div 2 ^ k * 2 ^ k) = unat x div 2 ^ k * 2 ^ k"
    using lt by (rule take_bit_nat_eq_self)
  finally show ?thesis .
qed

lemma unat_align_up:
  "unat (align_up n (2 ^ k)) = unat (n + (2 ^ k - 1)) div 2 ^ k * 2 ^ k"
proof -
  have "align_up n (2 ^ k) = push_bit k (drop_bit k (n + (2 ^ k - 1)))"
    unfolding align_up_def and_not_low_bits by (simp add: algebra_simps)
  then show ?thesis by (simp only: unat_round_down)
qed

lemma unat_low_bits: "k < 64 \<Longrightarrow> unat (2 ^ k - 1 :: u64) = 2 ^ k - 1"
proof -
  assume k: "k < 64"
  have "uint (mask k :: u64) = mask (min 64 k)" using uint_mask_eq [of k, where 'a = 64] by simp
  also have "min 64 k = k" using k by simp
  finally have "unat (mask k :: u64) = nat (mask k)" by (simp only: unat_eq_nat_uint)
  also have "\<dots> = 2 ^ k - 1" by (simp add: mask_eq_exp_minus_1 nat_diff_distrib nat_power_eq)
  finally show ?thesis by (simp only: mask_eq_decr_exp)
qed

lemma round_up_ge: "0 < p \<Longrightarrow> u \<le> (u + (p - 1)) div p * (p::nat)"
proof -
  assume p: "0 < p"
  have "(u + (p - 1)) div p * p = (u + (p - 1)) - (u + (p - 1)) mod p"
    by (simp add: minus_mod_eq_div_mult)
  moreover have "(u + (p - 1)) mod p < p" using p by simp
  ultimately show ?thesis by linarith
qed

lemma align_up_ge_or_zero:
  assumes "k < 64"
  shows "n \<le> align_up n (2 ^ k) \<or> align_up n (2 ^ k) = 0"
proof -
  define p :: nat where "p = 2 ^ k"
  define u where "u = unat n"
  define x where "x = unat (n + (2 ^ k - 1))"
  have p: "0 < p" by (simp add: p_def)
  have m: "unat (2 ^ k - 1 :: u64) = p - 1"
    unfolding p_def using assms by (rule unat_low_bits)
  have a: "unat (align_up n (2 ^ k)) = x div p * p"
    unfolding x_def p_def by (rule unat_align_up)
  have u: "u < 2 ^ 64" unfolding u_def using unsigned_less [of n] by simp
  have x: "x = (if u + (p - 1) < 2 ^ 64 then u + (p - 1) else u + (p - 1) - 2 ^ 64)"
    unfolding x_def u_def using unat_plus_if' [of n "2 ^ k - 1"] m by simp
  show ?thesis
  proof (cases "u + (p - 1) < 2 ^ 64")
    case True
    then have "x = u + (p - 1)" using x by simp
    then have "u \<le> x div p * p" using round_up_ge [OF p, of u] by simp
    then show ?thesis using a by (simp add: word_le_nat_alt u_def)
  next
    case False
    then have "x = u + (p - 1) - 2 ^ 64" using x by simp
    with u have "x < p" using p by linarith
    then have "x div p * p = 0" by simp
    then have "unat (align_up n (2 ^ k)) = 0" using a by simp
    then show ?thesis by (simp only: unat_eq_zero) simp
  qed
qed

lemma buf_size_aligned: "buf_size (aligned a sz :: 'a temporary_buffer) = sz"
  by (simp add: buf_size_def aligned_def)

lemma length_aligned: "length (aligned a sz :: 'a temporary_buffer) = unat sz"
  by (simp add: aligned_def)

lemma length_lt_u64: "length bytes \<le> unat (l :: u64) \<Longrightarrow> length bytes < 2 ^ 64"
  using unsigned_less [of l, where 'a = nat] by simp

lemma dma_read_cases:
  assumes "read_dma_bounded f" and "dma_read f p b l s = (res, s')"
  shows "\<exists>r d'. read_dma f (device s) p l = (r, d') \<and>
           s' = \<lparr>device = d', reads = reads s @ [(p, l, r)]\<rparr> \<and>
           (case r of
              Inl e \<Rightarrow> res = Inl e
            | Inr bytes \<Rightarrow> length bytes \<le> unat l \<and>
                res = Inr (of_nat (length bytes), map Some bytes @ drop (length bytes) b))"
proof -
  obtain r d' where rd: "read_dma f (device s) p l = (r, d')"
    by (cases "read_dma f (device s) p l")
  show ?thesis
  proof (cases r)
    case (Inl e)
    with rd assms(2) show ?thesis by (auto simp: dma_read_def)
  next
    case (Inr bytes)
    with rd assms(1) have "length bytes \<le> unat l"
      unfolding read_dma_bounded_def by blast
    with Inr rd assms(2) show ?thesis by (auto simp: dma_read_def)
  qed
qed

lemma read_maybe_eof_cases:
  assumes "read_dma_bounded f" and "read_maybe_eof f p len s = (res, s')"
  shows "\<exists>r d'. read_dma f (device s) p (align_up len (disk_read_dma_alignment f)) = (r, d') \<and>
           s' = \<lparr>device = d',
                      reads = reads s @ [(p, align_up len (disk_read_dma_alignment f), r)]\<rparr> \<and>
           (case r of
              Inr bytes \<Rightarrow> res = Inr (map Some bytes) \<and>
                length bytes \<le> unat (align_up len (disk_read_dma_alignment f))
            | Inl e \<Rightarrow> if e = System_error EINVAL then res = Inr [] else res = Inl e)"
proof -
  define L where "L = align_up len (disk_read_dma_alignment f)"
  define b :: "'b temporary_buffer" where "b = aligned (memory_dma_alignment f) L"
  obtain res1 s1 where d: "dma_read f p b L s = (res1, s1)"
    by (cases "dma_read f p b L s")
  from dma_read_cases [OF assms(1) d] obtain r d' where
    rd: "read_dma f (device s) p L = (r, d')" and
    s1: "s1 = \<lparr>device = d', reads = reads s @ [(p, L, r)]\<rparr>" and
    r: "case r of Inl e \<Rightarrow> res1 = Inl e
        | Inr bytes \<Rightarrow> length bytes \<le> unat L \<and>
            res1 = Inr (of_nat (length bytes), map Some bytes @ drop (length bytes) b)"
    by blast
  have unf: "read_maybe_eof f p len s =
      (case (res1, s1) of
           (Inr (sz, b'), s') \<Rightarrow> (Inr (trim sz b'), s')
         | (Inl (System_error code), s') \<Rightarrow>
             (if code = EINVAL then (Inr (trim 0 b), s') else (Inl (System_error code), s'))
         | (Inl e, s') \<Rightarrow> (Inl e, s'))"
  proof -
    have bs: "buf_size b = L" by (simp add: b_def buf_size_aligned)
    show ?thesis
      by (simp add: read_maybe_eof_def Let_def L_def [symmetric] b_def [symmetric] bs d)
  qed
  show ?thesis
  proof (cases r)
    case (Inl e)
    with r have "res1 = Inl e" by simp
    with unf assms(2) s1 rd Inl show ?thesis
      by (cases e) (auto simp: L_def trim_def split: if_splits)
  next
    case (Inr bytes)
    with r have len: "length bytes \<le> unat L"
      and res1: "res1 = Inr (of_nat (length bytes), map Some bytes @ drop (length bytes) b)"
      by simp_all
    have "unat (of_nat (length bytes) :: u64) = length bytes"
      using length_lt_u64 [OF len] by (rule unat_of_nat_small)
    then have "trim (of_nat (length bytes)) (map Some bytes @ drop (length bytes) b) = map Some bytes"
      by (simp add: trim_def)
    with unf assms(2) s1 rd Inr res1 len show ?thesis
      by (auto simp: L_def)
  qed
qed

lemma append_holds:
  assumes k: "k < 64"
    and h: "holds (2 ^ k) rs B"
    and nd: "\<not> read_done rs"
    and ne: "bytes \<noteq> []"
    and len: "length bytes \<le> unat (align_up (left_to_read rs) (2 ^ k))"
  shows "holds (2 ^ k) (append_new_data rs (map Some bytes)) (B @ bytes) \<and>
         unat (pos rs) < unat (pos (append_new_data rs (map Some bytes))) \<and>
         to_read (append_new_data rs (map Some bytes)) = to_read rs \<and>
         front (append_new_data rs (map Some bytes)) = front rs \<and>
         eof (append_new_data rs (map Some bytes)) = eof rs"
proof -
  define cap where "cap = align_up (to_read rs) (2 ^ k)"
  define c where "c = unat cap"
  define q where "q = unat (pos rs)"
  from h have hl: "length (buf rs) = c" and hp: "q = min c (length B)"
    and ht: "take q (buf rs) = map Some (take c B)"
    unfolding holds_def cap_def [symmetric] c_def [symmetric] q_def [symmetric] by blast+
  from nd have lt: "pos rs < to_read rs" by (simp add: read_done_def not_le)
  have qc: "q < c"
  proof -
    from align_up_ge_or_zero [OF k, of "to_read rs"]
    consider "to_read rs \<le> cap" | "cap = 0" by (auto simp: cap_def)
    then show ?thesis
    proof cases
      case 1
      with lt have "pos rs < cap" by simp
      then show ?thesis by (simp add: q_def c_def word_less_nat_alt)
    next
      case 2
      then have "c = 0" by (simp add: c_def)
      with hp have "q = 0" by simp
      then have "pos rs = 0" by (simp add: q_def unat_eq_zero)
      then have "left_to_read rs = to_read rs" by (simp add: left_to_read_def)
      with len 2 have "length bytes = 0" by (simp add: cap_def)
      with ne show ?thesis by simp
    qed
  qed
  with hp have qB: "q = length B" by simp
  have c64: "c < 2 ^ 64" unfolding c_def using unsigned_less [of cap] by simp
  have bs: "buf_size (buf rs) = cap"
    by (simp add: buf_size_def hl c_def)
  have "pos rs \<le> cap" using qc by (simp add: q_def c_def word_le_nat_alt)
  then have ls: "unat (left_space rs) = c - q"
    by (simp add: left_space_def bs unat_sub c_def q_def)
  have nb: "unat (buf_size (map Some bytes)) = length bytes"
    unfolding buf_size_def using length_lt_u64 [OF len] by (simp add: unat_of_nat_small)
  define tc where "tc = min (c - q) (length bytes)"
  have tc: "unat (min (left_space rs) (buf_size (map Some bytes))) = tc"
    by (simp add: unat_min_word ls nb tc_def)
  have tc0: "0 < tc" using qc ne by (simp add: tc_def)
  have "q + tc < 2 ^ 64" using c64 qc by (simp add: tc_def)
  then have np: "unat (pos rs + min (left_space rs) (buf_size (map Some bytes))) = q + tc"
    using unat_add_lem [of "pos rs" "min (left_space rs) (buf_size (map Some bytes))"] tc
    by (simp add: q_def)
  define rs' where "rs' = append_new_data rs (map Some bytes)"
  have b': "buf rs' = take q (buf rs) @ take tc (map Some bytes) @ drop (q + tc) (buf rs)"
    by (simp add: rs'_def append_new_data_def Let_def memcpy_def tc q_def [symmetric])
  have p': "unat (pos rs') = q + tc"
    by (simp add: rs'_def append_new_data_def Let_def np)
  have same: "to_read rs' = to_read rs" "front rs' = front rs" "eof rs' = eof rs"
    by (simp_all add: rs'_def append_new_data_def Let_def)
  have l': "length (buf rs') = c"
    using hl qc by (simp add: b' tc_def)
  have "take (q + tc) (buf rs') = take q (buf rs) @ take tc (map Some bytes)"
    using hl qc by (simp add: b' tc_def)
  also have "\<dots> = map Some (B @ take tc bytes)"
    using ht qB qc by (simp add: take_map)
  also have "B @ take tc bytes = take c (B @ bytes)"
    using qB qc by (simp add: tc_def min_def)
  finally have t': "take (q + tc) (buf rs') = map Some (take c (B @ bytes))" .
  have m': "q + tc = min c (length (B @ bytes))"
    using qB qc by (simp add: tc_def)
  have "holds (2 ^ k) rs' (B @ bytes)"
    unfolding holds_def same cap_def [symmetric] c_def [symmetric] p'
    using l' m' t' by simp
  moreover have "unat (pos rs) < unat (pos rs')" using tc0 p' by (simp add: q_def)
  ultimately show ?thesis using same by (simp add: rs'_def)
qed

definition follow_up_ok :: "(io_error + 'b) \<Rightarrow> (u64 \<times> u64 \<times> (io_error + 'a list)) \<Rightarrow> bool" where
  "follow_up_ok res ev \<longleftrightarrow>
     (case snd (snd ev) of
        Inr bytes \<Rightarrow> True
      | Inl e \<Rightarrow> if e = System_error EINVAL then \<not> isl res else res = Inl e)"

lemma bytes_read_simps [simp]:
  "bytes_read [] = []"
  "bytes_read ((p, l, Inr bytes) # evs) = bytes @ bytes_read evs"
  "bytes_read ((p, l, Inl e) # evs) = bytes_read evs"
  by (simp_all add: bytes_read_def)

lemma holds_eof: "holds a (rs\<lparr>eof := True\<rparr>) B = holds a rs B"
  by (simp add: holds_def)

lemma read_more_done: "read_done rs \<Longrightarrow> read_more f rs s = Some (Inr rs, s)"
  by (subst read_more.simps) simp

lemma read_more_result:
  assumes a: "disk_read_dma_alignment f = 2 ^ k" and k: "k < 64" and bd: "read_dma_bounded f"
  shows "holds (2 ^ k) rs B \<Longrightarrow>
         \<exists>res s' evs. read_more f rs s = Some (res, s') \<and> reads s' = reads s @ evs \<and>
           issued f (device s) evs (device s') \<and>
           (\<forall>rs'. res = Inr rs' \<longrightarrow>
              holds (2 ^ k) rs' (B @ bytes_read evs) \<and> front rs' = front rs \<and>
              to_read rs' = to_read rs) \<and>
           (\<forall>e. res = Inl e \<longrightarrow> evs \<noteq> [] \<and> snd (snd (last evs)) = Inl e) \<and>
           (\<forall>ev \<in> set evs. follow_up_ok res ev) \<and>
           (\<forall>ev \<in> set (butlast evs). \<exists>bytes. snd (snd ev) = Inr bytes \<and> bytes \<noteq> [])"
proof (induction "unat (to_read rs) - unat (pos rs)" arbitrary: rs B s rule: less_induct)
  case less
  show ?case
  proof (cases "read_done rs")
    case True
    then have "read_more f rs s = Some (Inr rs, s)" by (rule read_more_done)
    with less.prems show ?thesis by simp
  next
    case False
    obtain res1 s1 where rm: "read_maybe_eof f (cur_offset rs) (left_to_read rs) s = (res1, s1)"
      by (cases "read_maybe_eof f (cur_offset rs) (left_to_read rs) s")
    from read_maybe_eof_cases [OF bd rm, unfolded a] obtain r d' where
      rd: "read_dma f (device s) (cur_offset rs) (align_up (left_to_read rs) (2 ^ k)) = (r, d')"
      and s1: "s1 = \<lparr>device = d',
                 reads = reads s @ [(cur_offset rs, align_up (left_to_read rs) (2 ^ k), r)]\<rparr>"
      and r: "case r of
                Inr bytes \<Rightarrow> res1 = Inr (map Some bytes) \<and>
                  length bytes \<le> unat (align_up (left_to_read rs) (2 ^ k))
              | Inl e \<Rightarrow> if e = System_error EINVAL then res1 = Inr [] else res1 = Inl e"
      by blast
    define ev where "ev = (cur_offset rs, align_up (left_to_read rs) (2 ^ k), r)"
    have rs1: "reads s1 = reads s @ [ev]" by (simp add: s1 ev_def)
    have is1: "issued f (device s) (ev # evs) d'' \<longleftrightarrow> issued f (device s1) evs d''" for evs d''
      by (simp add: ev_def rd s1)
    have unf: "read_more f rs s =
       (case res1 of
          Inl e \<Rightarrow> Some (Inl e, s1)
        | Inr buf1 \<Rightarrow>
            read_more f (if buf_size buf1 \<noteq> 0 then append_new_data rs buf1
                         else rs\<lparr>eof := True\<rparr>) s1)"
      using False by (subst read_more.simps) (simp add: rm)
    have stop: ?thesis if res1: "res1 = Inr []" and nob: "bytes_read [ev] = []"
      and ok: "\<And>x. follow_up_ok (Inr x :: io_error + 'b read_state) ev"
    proof -
      have "read_done (rs\<lparr>eof := True\<rparr>)" by (simp add: read_done_def)
      then have "read_more f rs s = Some (Inr (rs\<lparr>eof := True\<rparr>), s1)"
        using unf res1 by (simp add: buf_size_def read_more_done)
      moreover have "holds (2 ^ k) (rs\<lparr>eof := True\<rparr>) (B @ bytes_read [ev])"
        using less.prems nob by (simp add: holds_eof)
      moreover have "issued f (device s) [ev] (device s1)"
        by (simp add: is1)
      ultimately have "read_more f rs s = Some (Inr (rs\<lparr>eof := True\<rparr>), s1) \<and>
          reads s1 = reads s @ [ev] \<and>
          issued f (device s) [ev] (device s1) \<and>
          (\<forall>x. Inr (rs\<lparr>eof := True\<rparr>) = (Inr x :: io_error + 'b read_state) \<longrightarrow>
             holds (2 ^ k) x (B @ bytes_read [ev]) \<and> front x = front rs \<and>
             to_read x = to_read rs) \<and>
          (\<forall>e. (Inr (rs\<lparr>eof := True\<rparr>) :: io_error + 'b read_state) = Inl e \<longrightarrow>
             [ev] \<noteq> [] \<and> snd (snd (last [ev])) = Inl e) \<and>
          (\<forall>e \<in> set [ev]. follow_up_ok (Inr (rs\<lparr>eof := True\<rparr>) :: io_error + 'b read_state) e) \<and>
          (\<forall>e \<in> set (butlast [ev]). \<exists>bytes. snd (snd e) = Inr bytes \<and> bytes \<noteq> [])"
        using rs1 ok by simp
      then show ?thesis by blast
    qed
    show ?thesis
    proof (cases r)
      case (Inl e)
      show ?thesis
      proof (cases "e = System_error EINVAL")
        case True
        with Inl r have "res1 = Inr []" by simp
        moreover have "bytes_read [ev] = []" by (simp add: ev_def Inl)
        moreover have "\<And>x. follow_up_ok (Inr x :: io_error + 'b read_state) ev"
          by (simp add: follow_up_ok_def ev_def Inl True)
        ultimately show ?thesis by (rule stop)
      next
        case False
        with Inl r have "res1 = Inl e" by simp
        then have "read_more f rs s = Some (Inl e, s1)" using unf by simp
        moreover have "follow_up_ok (Inl e :: io_error + 'b read_state) ev"
          by (simp add: follow_up_ok_def ev_def Inl False)
        moreover have "issued f (device s) [ev] (device s1)"
          by (simp add: is1)
        moreover have "snd (snd (last [ev])) = Inl e"
          by (simp add: ev_def Inl)
        ultimately have "read_more f rs s = Some (Inl e, s1) \<and>
            reads s1 = reads s @ [ev] \<and>
            issued f (device s) [ev] (device s1) \<and>
            (\<forall>x. Inl e = (Inr x :: io_error + 'b read_state) \<longrightarrow>
               holds (2 ^ k) x (B @ bytes_read [ev]) \<and> front x = front rs \<and>
               to_read x = to_read rs) \<and>
            (\<forall>e'. (Inl e :: io_error + 'b read_state) = Inl e' \<longrightarrow>
               [ev] \<noteq> [] \<and> snd (snd (last [ev])) = Inl e') \<and>
            (\<forall>e' \<in> set [ev]. follow_up_ok (Inl e :: io_error + 'b read_state) e') \<and>
            (\<forall>e' \<in> set (butlast [ev]). \<exists>bytes. snd (snd e') = Inr bytes \<and> bytes \<noteq> [])"
          using rs1 by simp
        then show ?thesis by blast
      qed
    next
      case (Inr bytes)
      with r have res1: "res1 = Inr (map Some bytes)"
        and len: "length bytes \<le> unat (align_up (left_to_read rs) (2 ^ k))" by simp_all
      show ?thesis
      proof (cases "bytes = []")
        case True
        with res1 have "res1 = Inr []" by simp
        moreover have "bytes_read [ev] = []" by (simp add: ev_def Inr True)
        moreover have "\<And>x. follow_up_ok (Inr x :: io_error + 'b read_state) ev"
          by (simp add: follow_up_ok_def ev_def Inr)
        ultimately show ?thesis by (rule stop)
      next
        case ne: False
        define rs' where "rs' = append_new_data rs (map Some bytes)"
        from append_holds [OF k less.prems False ne len]
        have h': "holds (2 ^ k) rs' (B @ bytes)"
          and adv: "unat (pos rs) < unat (pos rs')"
          and same: "to_read rs' = to_read rs" "front rs' = front rs"
          by (simp_all add: rs'_def)
        have "unat (buf_size (map Some bytes)) = length bytes"
          unfolding buf_size_def using length_lt_u64 [OF len] by (simp add: unat_of_nat_small)
        with ne have "buf_size (map Some bytes) \<noteq> 0"
          by (metis length_0_conv unat_0)
        with unf res1 have step: "read_more f rs s = read_more f rs' s1"
          by (simp add: rs'_def)
        from False have "unat (pos rs) < unat (to_read rs)"
          by (simp add: read_done_def not_le word_less_nat_alt)
        with adv same have "unat (to_read rs') - unat (pos rs') < unat (to_read rs) - unat (pos rs)"
          by simp
        from less.hyps [OF this h', of s1] obtain res s' evs where
          rec: "read_more f rs' s1 = Some (res, s')" "reads s' = reads s1 @ evs"
            "\<forall>x. res = Inr x \<longrightarrow> holds (2 ^ k) x ((B @ bytes) @ bytes_read evs) \<and>
                  front x = front rs' \<and> to_read x = to_read rs'"
            "\<forall>ev \<in> set evs. follow_up_ok res ev"
            "\<forall>ev \<in> set (butlast evs). \<exists>bytes. snd (snd ev) = Inr bytes \<and> bytes \<noteq> []"
          and iss: "issued f (device s1) evs (device s')"
          and fl: "\<forall>e. res = Inl e \<longrightarrow> evs \<noteq> [] \<and> snd (snd (last evs)) = Inl e"
          by blast
        have "bytes_read (ev # evs) = bytes @ bytes_read evs" by (simp add: ev_def Inr)
        moreover have "follow_up_ok res ev" by (simp add: follow_up_ok_def ev_def Inr)
        moreover have "\<forall>e \<in> set (butlast (ev # evs)). \<exists>bytes. snd (snd e) = Inr bytes \<and> bytes \<noteq> []"
          using rec(5) ne by (simp add: ev_def Inr)
        moreover have "issued f (device s) (ev # evs) (device s')"
          using iss by (simp only: is1)
        moreover have "\<forall>e. res = Inl e \<longrightarrow> ev # evs \<noteq> [] \<and> snd (snd (last (ev # evs))) = Inl e"
          using fl by simp
        ultimately have
          "read_more f rs s = Some (res, s') \<and> reads s' = reads s @ (ev # evs) \<and>
           issued f (device s) (ev # evs) (device s') \<and>
           (\<forall>x. res = Inr x \<longrightarrow> holds (2 ^ k) x (B @ bytes_read (ev # evs)) \<and>
              front x = front rs \<and> to_read x = to_read rs) \<and>
           (\<forall>e. res = Inl e \<longrightarrow> ev # evs \<noteq> [] \<and> snd (snd (last (ev # evs))) = Inl e) \<and>
           (\<forall>e \<in> set (ev # evs). follow_up_ok res e) \<and>
           (\<forall>e \<in> set (butlast (ev # evs)). \<exists>bytes. snd (snd e) = Inr bytes \<and> bytes \<noteq> [])"
          using rec(1-4) step rs1 same by simp
        then show ?thesis by blast
      qed
    qed
  qed
qed

lemma unat_pow2: "k < 64 \<Longrightarrow> unat (2 ^ k :: u64) = 2 ^ k"
proof -
  assume k: "k < 64"
  then have "(2 ^ k :: u64) \<noteq> 0" by simp
  then have "(0 :: u64) < 2 ^ k" by (simp only: word_neq_0_conv)
  then have "uint (2 ^ k :: u64) = 2 ^ k" by (rule uint_2p)
  then show ?thesis by (simp add: unat_eq_nat_uint nat_power_eq)
qed

lemma first_read_holds:
  assumes len: "length bytes \<le> unat (align_up n a)"
  shows "holds a
     ((make_read_state o' fr n m a)\<lparr>buf := map Some bytes @
            drop (length bytes) (buf (make_read_state o' fr n m a :: 'a read_state)),
          pos := of_nat (length bytes)\<rparr>) bytes"
proof -
  have "unat (of_nat (length bytes) :: u64) = length bytes"
    using length_lt_u64 [OF len] by (rule unat_of_nat_small)
  with len show ?thesis
    by (simp add: holds_def make_read_state_def length_aligned)
qed

lemma trim_buf_before_ret_holds:
  assumes "holds a rs B"
  shows "buf (trim_buf_before_ret rs) =
           map Some (drop (unat (front rs)) (take (unat (align_up (to_read rs) a)) B))"
proof (cases "have_good_bytes rs")
  case True
  from assms have "take (unat (pos rs)) (buf rs) =
      map Some (take (unat (align_up (to_read rs) a)) B)"
    unfolding holds_def by blast
  with True show ?thesis
    by (simp add: trim_buf_before_ret_def trim_def trim_front_def drop_map)
next
  case False
  then have "unat (pos rs) \<le> unat (front rs)"
    by (simp add: have_good_bytes_def not_less word_le_nat_alt)
  with assms have "length (take (unat (align_up (to_read rs) a)) B) \<le> unat (front rs)"
    by (simp add: holds_def)
  then have "drop (unat (front rs)) (take (unat (align_up (to_read rs) a)) B) = []"
    by (simp only: drop_all)
  with False show ?thesis
    by (simp add: trim_buf_before_ret_def trim_def)
qed

lemma follow_up_ok_Inl:
  "follow_up_ok (Inl e :: io_error + 'x) ev \<Longrightarrow> follow_up_ok (Inl e :: io_error + 'y) ev"
  by (cases "snd (snd ev)") (auto simp: follow_up_ok_def split: if_splits)

lemma follow_up_ok_Inr:
  "follow_up_ok (Inr x :: io_error + 'x) ev \<Longrightarrow> follow_up_ok (Inr y :: io_error + 'y) ev"
  by (cases "snd (snd ev)") (auto simp: follow_up_ok_def split: if_splits)

lemma dma_read_bulk_result:
  assumes a: "disk_read_dma_alignment f = 2 ^ k" and k: "k < 64" and bd: "read_dma_bounded f"
  shows "\<exists>res s' r evs.
     dma_read_bulk f offs rng s = Some (res, s') \<and>
     reads s' = reads s @
        (offs - (offs AND (2 ^ k - 1)), align_up (rng + (offs AND (2 ^ k - 1))) (2 ^ k), r) # evs \<and>
     issued f (device s)
        ((offs - (offs AND (2 ^ k - 1)), align_up (rng + (offs AND (2 ^ k - 1))) (2 ^ k), r) # evs)
        (device s') \<and>
     (\<forall>e. r = Inl e \<longrightarrow> res = Inl e \<and> evs = []) \<and>
     (\<forall>e. res = Inl e \<longrightarrow>
        snd (snd (last ((offs - (offs AND (2 ^ k - 1)),
                      align_up (rng + (offs AND (2 ^ k - 1))) (2 ^ k), r) # evs))) = Inl e) \<and>
     (\<forall>b. res = Inr b \<longrightarrow>
        b = map Some (drop (unat (offs AND (2 ^ k - 1)))
              (take (unat (align_up (rng + (offs AND (2 ^ k - 1))) (2 ^ k)))
                 (bytes_read ((offs - (offs AND (2 ^ k - 1)),
                      align_up (rng + (offs AND (2 ^ k - 1))) (2 ^ k), r) # evs))))) \<and>
     (\<forall>ev \<in> set evs. follow_up_ok res ev) \<and>
     (\<forall>ev \<in> set (butlast evs). \<exists>bytes. snd (snd ev) = Inr bytes \<and> bytes \<noteq> [])"
proof -
  define fr where "fr = offs AND (2 ^ k - 1)"
  define len where "len = align_up (rng + fr) (2 ^ k)"
  define rstate :: "'b read_state"
    where "rstate = make_read_state (offs - fr) fr (rng + fr) (memory_dma_alignment f) (2 ^ k)"
  have bs: "buf_size (buf rstate) = len"
    by (simp add: rstate_def make_read_state_def buf_size_aligned len_def)
  obtain res0 s1 where d: "dma_read f (offs - fr) (buf rstate) len s = (res0, s1)"
    by (cases "dma_read f (offs - fr) (buf rstate) len s")
  have unf: "dma_read_bulk f offs rng s =
     (case (res0, s1) of
           (Inl e, s1) \<Rightarrow> Some (Inl e, s1)
         | (Inr (sz, b), s1) \<Rightarrow>
             (case read_more f (rstate\<lparr>buf := b, pos := sz\<rparr>) s1 of
                None \<Rightarrow> None
              | Some (Inl e, s2) \<Rightarrow> Some (Inl e, s2)
              | Some (Inr rstate', s2) \<Rightarrow> Some (Inr (buf (trim_buf_before_ret rstate')), s2)))"
    unfolding dma_read_bulk_def Let_def a fr_def [symmetric] rstate_def [symmetric] bs d ..
  from dma_read_cases [OF bd d] obtain r d' where
    rd: "read_dma f (device s) (offs - fr) len = (r, d')" and
    s1: "s1 = \<lparr>device = d', reads = reads s @ [(offs - fr, len, r)]\<rparr>" and
    r: "case r of Inl e \<Rightarrow> res0 = Inl e
        | Inr bytes \<Rightarrow> length bytes \<le> unat len \<and>
            res0 = Inr (of_nat (length bytes), map Some bytes @ drop (length bytes) (buf rstate))"
    by blast
  define ev where "ev = (offs - fr, len, r)"
  have rs1: "reads s1 = reads s @ [ev]" by (simp add: s1 ev_def)
  have is1: "issued f (device s) (ev # evs) d'' \<longleftrightarrow> issued f (device s1) evs d''" for evs d''
    by (simp add: ev_def rd s1)
  have "\<exists>res s' evs.
     dma_read_bulk f offs rng s = Some (res, s') \<and>
     reads s' = reads s @ ev # evs \<and>
     issued f (device s) (ev # evs) (device s') \<and>
     (\<forall>e. r = Inl e \<longrightarrow> res = Inl e \<and> evs = []) \<and>
     (\<forall>e. res = Inl e \<longrightarrow> snd (snd (last (ev # evs))) = Inl e) \<and>
     (\<forall>b. res = Inr b \<longrightarrow>
        b = map Some (drop (unat fr) (take (unat len) (bytes_read (ev # evs))))) \<and>
     (\<forall>ev \<in> set evs. follow_up_ok res ev) \<and>
     (\<forall>ev \<in> set (butlast evs). \<exists>bytes. snd (snd ev) = Inr bytes \<and> bytes \<noteq> [])"
  proof (cases r)
    case (Inl e)
    with r have "res0 = Inl e" by simp
    with unf have "dma_read_bulk f offs rng s = Some (Inl e, s1)" by simp
    moreover have "issued f (device s) [ev] (device s1)" by (simp add: is1)
    moreover have "snd (snd (last [ev])) = Inl e" by (simp add: ev_def Inl)
    ultimately show ?thesis using rs1 Inl by simp
  next
    case (Inr bytes)
    with r have lb: "length bytes \<le> unat len"
      and res0: "res0 = Inr (of_nat (length bytes),
                   map Some bytes @ drop (length bytes) (buf rstate))"
      by simp_all
    define rs where "rs = rstate\<lparr>buf := map Some bytes @ drop (length bytes) (buf rstate),
                                 pos := of_nat (length bytes)\<rparr>"
    have h: "holds (2 ^ k) rs bytes"
      unfolding rs_def rstate_def using lb [unfolded len_def] by (rule first_read_holds)
    have fr: "front rs = fr" "to_read rs = rng + fr"
      by (simp_all add: rs_def rstate_def make_read_state_def)
    from read_more_result [OF a k bd h, of s1] obtain res1 s' evs where
      rm: "read_more f rs s1 = Some (res1, s')" and
      rd: "reads s' = reads s1 @ evs" and
      iss: "issued f (device s1) evs (device s')" and
      hr: "\<forall>x. res1 = Inr x \<longrightarrow> holds (2 ^ k) x (bytes @ bytes_read evs) \<and>
              front x = front rs \<and> to_read x = to_read rs" and
      fl: "\<forall>e. res1 = Inl e \<longrightarrow> evs \<noteq> [] \<and> snd (snd (last evs)) = Inl e" and
      fo: "\<forall>ev \<in> set evs. follow_up_ok res1 ev" and
      bl: "\<forall>ev \<in> set (butlast evs). \<exists>bytes. snd (snd ev) = Inr bytes \<and> bytes \<noteq> []"
      by blast
    have br: "bytes_read (ev # evs) = bytes @ bytes_read evs" by (simp add: ev_def Inr)
    have is2: "issued f (device s) (ev # evs) (device s')"
      using iss by (simp only: is1)
    show ?thesis
    proof (cases res1)
      case (Inl e)
      with unf res0 rm have "dma_read_bulk f offs rng s = Some (Inl e, s')"
        by (simp add: rs_def)
      moreover have "\<forall>ev \<in> set evs. follow_up_ok (Inl e :: io_error + 'b temporary_buffer) ev"
        using fo Inl by (blast intro: follow_up_ok_Inl)
      moreover have "snd (snd (last (ev # evs))) = Inl e"
        using fl Inl by simp
      ultimately show ?thesis using rd rs1 bl Inr is2 by auto
    next
      case (Inr x)
      with hr have hx: "holds (2 ^ k) x (bytes @ bytes_read evs)"
        and fx: "front x = fr" "to_read x = rng + fr" by (simp_all add: fr)
      from unf res0 rm Inr
      have "dma_read_bulk f offs rng s = Some (Inr (buf (trim_buf_before_ret x)), s')"
        by (simp add: rs_def)
      moreover have "buf (trim_buf_before_ret x) =
          map Some (drop (unat fr) (take (unat len) (bytes_read (ev # evs))))"
        using trim_buf_before_ret_holds [OF hx] by (simp add: fx len_def br)
      moreover have "\<forall>ev \<in> set evs.
          follow_up_ok (Inr (buf (trim_buf_before_ret x)) :: io_error + 'b temporary_buffer) ev"
      proof
        fix ev assume "ev \<in> set evs"
        with fo have "follow_up_ok res1 ev" by blast
        then show "follow_up_ok (Inr (buf (trim_buf_before_ret x)) :: io_error + 'b temporary_buffer) ev"
          unfolding Inr by (rule follow_up_ok_Inr)
      qed
      ultimately show ?thesis using rd rs1 bl \<open>r = Inr bytes\<close> is2 by auto
    qed
  qed
  then show ?thesis unfolding ev_def len_def fr_def by blast
qed

lemma direct_file_bounded: "read_dma_bounded (direct_file content a)"
  by (auto simp: read_dma_bounded_def direct_file_def direct_read_def split: if_splits)

lemma failing_file_bounded: "read_dma_bounded (failing_file content e a)"
  by (auto simp: read_dma_bounded_def failing_file_def failing_read_def split: if_splits)

lemma short_file_bounded: "read_dma_bounded (short_file content most a)"
  by (auto simp: read_dma_bounded_def short_file_def short_read_def)

text \<open>
  Claim C3. For every offset and range size, on a file whose read alignment is a power of
  two and whose reads return no more than they are asked for, \<^verbatim>\<open>dma_read_bulk\<close> returns.
  \<open>front\<close> is the offset modulo the alignment. The reads it issued to the device begin
  with one at \<open>offset - front\<close> for the range widened by \<open>front\<close> (and rounded up to the
  alignment). When this first read fails, the returned future fails with its error, and so
  it does when a later read fails with anything but \<^verbatim>\<open>EINVAL\<close>. In every other case a
  buffer is returned, and it holds the bytes actually read, as far as they fit the allocated
  buffer, without the first \<open>front\<close> of them: it begins at the requested offset and ends
  where the bytes read end. When no byte beyond the front padding was read, it is empty.
\<close>

theorem dma_read_bulk_trims:
  assumes "disk_read_dma_alignment f = 2 ^ k" and "k < 64" and "read_dma_bounded f"
  shows "let front' = offs AND (disk_read_dma_alignment f - 1);
             len = align_up (range_size + front') (disk_read_dma_alignment f);
             first = (offs - front', len, fst (read_dma f (device s) (offs - front') len))
         in unat front' = unat offs mod unat (disk_read_dma_alignment f) \<and>
            (\<exists>res s' evs.
               dma_read_bulk f offs range_size s = Some (res, s') \<and>
               reads s' = reads s @ first # evs \<and>
               issued f (device s) (first # evs) (device s') \<and>
               (\<forall>e. snd (snd first) = Inl e \<longrightarrow> res = Inl e \<and> evs = []) \<and>
               (\<forall>p l e. (p, l, Inl e) \<in> set evs \<and> e \<noteq> System_error EINVAL \<longrightarrow> res = Inl e) \<and>
               ((\<exists>bytes. snd (snd first) = Inr bytes) \<and>
                (\<forall>p l e. (p, l, Inl e) \<in> set evs \<longrightarrow> e = System_error EINVAL) \<longrightarrow>
                  res = Inr (map Some (drop (unat front')
                               (take (unat len) (bytes_read (first # evs))))) \<and>
                  (length (bytes_read (first # evs)) \<le> unat front' \<longrightarrow> res = Inr [])))"
proof -
  define fr where "fr = offs AND (2 ^ k - 1)"
  define len where "len = align_up (range_size + fr) (2 ^ k)"
  define first where "first = (offs - fr, len, fst (read_dma f (device s) (offs - fr) len))"
  have m: "unat fr = unat offs mod unat (2 ^ k :: u64)"
    unfolding fr_def using assms(2) by (simp only: unat_front unat_pow2)
  from dma_read_bulk_result [OF assms, of offs range_size s]
  obtain res s' r evs where
    run: "dma_read_bulk f offs range_size s = Some (res, s')" and
    tr: "reads s' = reads s @ (offs - fr, len, r) # evs" and
    iss: "issued f (device s) ((offs - fr, len, r) # evs) (device s')" and
    r1: "\<forall>e. r = Inl e \<longrightarrow> res = Inl e \<and> evs = []" and
    la: "\<forall>e. res = Inl e \<longrightarrow> snd (snd (last ((offs - fr, len, r) # evs))) = Inl e" and
    b: "\<forall>b. res = Inr b \<longrightarrow>
        b = map Some (drop (unat fr) (take (unat len) (bytes_read ((offs - fr, len, r) # evs))))" and
    fo: "\<forall>ev \<in> set evs. follow_up_ok res ev"
    unfolding fr_def [symmetric] len_def [symmetric] by blast
  from iss have r: "fst (read_dma f (device s) (offs - fr) len) = r" by simp
  then have f: "(offs - fr, len, r) = first" by (simp add: first_def)
  have c1: "\<forall>e. snd (snd first) = Inl e \<longrightarrow> res = Inl e \<and> evs = []"
    using r1 by (simp add: first_def r)
  have c2: "\<forall>p l e. (p, l, Inl e) \<in> set evs \<and> e \<noteq> System_error EINVAL \<longrightarrow> res = Inl e"
  proof (intro allI impI)
    fix p l e
    assume h: "(p, l, Inl e) \<in> set evs \<and> e \<noteq> System_error EINVAL"
    with fo have "follow_up_ok res (p, l, Inl e :: io_error + 'b list)" by blast
    with h show "res = Inl e" by (simp add: follow_up_ok_def)
  qed
  have c3: "res = Inr (map Some (drop (unat fr) (take (unat len) (bytes_read (first # evs))))) \<and>
      (length (bytes_read (first # evs)) \<le> unat fr \<longrightarrow> res = Inr [])"
    if ok: "\<exists>bytes. snd (snd first) = Inr bytes"
      and einval: "\<forall>p l e. (p, l, Inl e) \<in> set evs \<longrightarrow> e = System_error EINVAL"
  proof -
    have "\<not> isl res"
    proof
      assume "isl res"
      then obtain e where e: "res = Inl e" by (cases res) simp_all
      with la f have l: "snd (snd (last (first # evs))) = Inl e" by simp
      show False
      proof (cases "evs = []")
        case True
        with l ok show False by simp
      next
        case False
        with l have "snd (snd (last evs)) = Inl e" by simp
        moreover obtain p l' x where x: "last evs = (p, l', x)" by (cases "last evs")
        ultimately have "last evs = (p, l', Inl e)" by simp
        with False have mem: "(p, l', Inl e) \<in> set evs" by (metis last_in_set)
        with einval have "e = System_error EINVAL" by blast
        moreover from fo mem have "follow_up_ok res (p, l', Inl e :: io_error + 'b list)" by blast
        ultimately have "\<not> isl res" by (simp add: follow_up_ok_def)
        with e show False by simp
      qed
    qed
    then obtain buf' where res: "res = Inr buf'" by (cases res) simp_all
    with b f have v: "buf' = map Some (drop (unat fr) (take (unat len) (bytes_read (first # evs))))"
      by simp
    have "buf' = []" if "length (bytes_read (first # evs)) \<le> unat fr"
    proof -
      have "length (take (unat len) (bytes_read (first # evs))) \<le> unat fr"
        using that by simp
      with v show ?thesis by simp
    qed
    with res v show ?thesis by simp
  qed
  have "unat fr = unat offs mod unat (2 ^ k :: u64) \<and>
        (\<exists>res s' evs.
           dma_read_bulk f offs range_size s = Some (res, s') \<and>
           reads s' = reads s @ first # evs \<and>
           issued f (device s) (first # evs) (device s') \<and>
           (\<forall>e. snd (snd first) = Inl e \<longrightarrow> res = Inl e \<and> evs = []) \<and>
           (\<forall>p l e. (p, l, Inl e) \<in> set evs \<and> e \<noteq> System_error EINVAL \<longrightarrow> res = Inl e) \<and>
           ((\<exists>bytes. snd (snd first) = Inr bytes) \<and>
            (\<forall>p l e. (p, l, Inl e) \<in> set evs \<longrightarrow> e = System_error EINVAL) \<longrightarrow>
              res = Inr (map Some (drop (unat fr)
                           (take (unat len) (bytes_read (first # evs))))) \<and>
              (length (bytes_read (first # evs)) \<le> unat fr \<longrightarrow> res = Inr [])))"
    using m run tr [unfolded f] iss [unfolded f] c1 c2 c3 by blast
  then show ?thesis
    unfolding Let_def assms(1) fr_def len_def first_def .
qed

text \<open>A file of thirty bytes with an alignment of 8, for the examples.\<close>

definition sample :: "(unit, char) dma_file" where
  "sample = direct_file ''0123456789abcdefghijklmnopqrst'' 8"

lemma read_maybe_eof_on_error:
  assumes "read_dma f (device s) p (align_up n (disk_read_dma_alignment f)) = (Inl e, d')"
  shows "fst (read_maybe_eof f p n s) = (if e = System_error EINVAL then Inr [] else Inl e)"
  using assms
  by (cases e) (simp_all add: read_maybe_eof_def dma_read_def Let_def buf_size_aligned trim_def)

text \<open>
  Claim C4, as amended. \<^verbatim>\<open>read_maybe_eof\<close> answers a read that failed with a
  \<^verbatim>\<open>std::system_error\<close> carrying \<^verbatim>\<open>EINVAL\<close> with a zero-length buffer and throws every
  other failure on. In \<^verbatim>\<open>dma_read_bulk\<close>, a follow-up read that fails is the last read;
  when it failed with \<^verbatim>\<open>EINVAL\<close> the caller receives, instead of a failed future, the
  bytes read before it with the front padding cut off (an empty buffer only when there were
  no such bytes); when it failed with anything else the returned future fails with that
  error.
\<close>

theorem einval_on_follow_up_read_is_eof:
  fixes f :: "('d, 'a) dma_file"
  assumes "disk_read_dma_alignment f = 2 ^ k" and "k < 64" and "read_dma_bounded f"
    and "dma_read_bulk f offs range_size s = Some (res, s')"
    and "reads s' = reads s @ first # evs"
    and "(p, l, Inl e) \<in> set evs"
  shows "(\<forall>s0 p0 n0 d0 e0.
            read_dma f (device s0) p0 (align_up n0 (disk_read_dma_alignment f)) = (Inl e0, d0) \<longrightarrow>
            fst (read_maybe_eof f p0 n0 s0) =
              (if e0 = System_error EINVAL then Inr [] else Inl e0)) \<and>
         (p, l, Inl e) = last evs \<and>
         (if e = System_error EINVAL
          then res = Inr (map Some (drop (unat (offs AND (disk_read_dma_alignment f - 1)))
                      (take (unat (fst (snd first))) (bytes_read (first # evs)))))
          else res = Inl e)"
proof -
  define fr where "fr = offs AND (2 ^ k - 1)"
  define len where "len = align_up (range_size + fr) (2 ^ k)"
  from dma_read_bulk_result [OF assms(1-3), of offs range_size s]
  obtain res0 s0 r evs0 where
    run: "dma_read_bulk f offs range_size s = Some (res0, s0)" and
    tr: "reads s0 = reads s @ (offs - fr, len, r) # evs0" and
    b: "\<forall>b. res0 = Inr b \<longrightarrow>
        b = map Some (drop (unat fr) (take (unat len) (bytes_read ((offs - fr, len, r) # evs0))))" and
    fo: "\<forall>ev \<in> set evs0. follow_up_ok res0 ev" and
    bl: "\<forall>ev \<in> set (butlast evs0). \<exists>bytes. snd (snd ev) = Inr bytes \<and> bytes \<noteq> []"
    unfolding fr_def [symmetric] len_def [symmetric] by blast
  from run assms(4) have eq: "res0 = res" "s0 = s'" by simp_all
  with tr assms(5) have f: "first = (offs - fr, len, r)" and ev: "evs0 = evs" by simp_all
  from assms(6) have ne: "evs \<noteq> []" by auto
  have "(p, l, Inl e) \<notin> set (butlast evs)"
    using bl ev by auto
  with assms(6) ne have la: "(p, l, Inl e) = last evs"
    by (metis append_butlast_last_id in_set_conv_decomp_first rotate1.simps(2) set_ConsD set_rotate1)
  from fo ev eq assms(6) have ok: "follow_up_ok res (p, l, Inl e :: io_error + 'a list)" 
    by auto
  have r: "if e = System_error EINVAL
          then res = Inr (map Some (drop (unat fr) (take (unat len) (bytes_read (first # evs)))))
          else res = Inl e"
  proof (cases "e = System_error EINVAL")
    case True
    with ok have "\<not> isl res" by (simp add: follow_up_ok_def)
    then obtain b where "res = Inr b" by (cases res) simp_all
    with b eq f ev True show ?thesis by simp
  next
    case False
    with ok show ?thesis by (simp add: follow_up_ok_def)
  qed
  have "fst (snd first) = len" by (simp add: f)
  with r la show ?thesis
    unfolding assms(1) fr_def [symmetric]
    using read_maybe_eof_on_error [of f, unfolded assms(1)] by simp
qed

theorem dma_read_bulk_trims_witness:
  "disk_read_dma_alignment sample = 2 ^ 3 \<and> (3::nat) < 64 \<and> read_dma_bounded sample \<and>
   unat (2 :: u64) = unat (10 :: u64) mod unat (8 :: u64) \<and>
   dma_read_bulk sample 10 40 start =
     Some (Inr (map Some ''abcdefghijklmnopqrst''),
           \<lparr>device = (), reads = [(8, 48, Inr ''89abcdefghijklmnopqrst''),
                                    (30, 24, Inl (System_error EINVAL))]\<rparr>) \<and>
   issued sample () [(8, 48, Inr ''89abcdefghijklmnopqrst''),
                     (30, 24, Inl (System_error EINVAL))] () \<and>
   (Inr (map Some ''abcdefghijklmnopqrst'') :: io_error + char temporary_buffer) =
      Inr (map Some (drop (unat (2 :: u64))
             (take (unat (48 :: u64)) (bytes_read [(8, 48, Inr ''89abcdefghijklmnopqrst''),
                                    (30, 24, Inl (System_error EINVAL))])))) \<and>
   read_dma_bounded (short_file ''0123456789abcdefghijklmnopqrst'' 16 8) \<and>
   dma_read_bulk (short_file ''0123456789abcdefghijklmnopqrst'' 16 8) 10 40 start =
     Some (Inr (map Some ''abcdefghijklmnopqrst''),
           \<lparr>device = (), reads = [(8, 48, Inr ''89abcdefghijklmn''),
                                    (24, 32, Inr ''opqrst''),
                                    (30, 24, Inr [])]\<rparr>) \<and>
   (Inr (map Some ''abcdefghijklmnopqrst'') :: io_error + char temporary_buffer) =
      Inr (map Some (drop (unat (2 :: u64))
             (take (unat (48 :: u64)) (bytes_read [(8, 48, Inr ''89abcdefghijklmn''),
                                    (24, 32, Inr ''opqrst''),
                                    (30, 24, Inr [])])))) \<and>
   read_dma_bounded (failing_file ''0123456789abcdefghijklmnopqrst'' (System_error 5) 8) \<and>
   (\<exists>s'. dma_read_bulk (failing_file ''0123456789abcdefghijklmnopqrst'' (System_error 5) 8) 10 40
            \<lparr>device = 0, reads = []\<rparr> = Some (Inl (System_error 5), s') \<and>
         reads s' = [(8, 48, Inl (System_error 5))]) \<and>
   dma_read_bulk (failing_file ''0123456789abcdefghijklmnopqrst'' (System_error 5) 8) 10 40
      \<lparr>device = 1, reads = []\<rparr> =
     Some (Inl (System_error 5),
           \<lparr>device = 0, reads = [(8, 48, Inr ''89abcdefghijklmnopqrst''),
                                   (30, 24, Inl (System_error 5))]\<rparr>)"
proof -
  have h2: "(3::nat) < 64" by simp
  have fr: "(10 :: u64) AND (8 - 1) = 2" by simp
  have len: "align_up (40 + 2) 8 = (48 :: u64)" by (simp add: align_up_def)
  have einval: "System_error 5 \<noteq> System_error EINVAL" by (simp add: EINVAL_def)
  (* a file opened for direct I/O *)
  have h1: "disk_read_dma_alignment sample = 2 ^ 3"
    by (simp add: sample_def direct_file_def)
  have h3: "read_dma_bounded sample"
    unfolding sample_def by (rule direct_file_bounded)
  have a: "disk_read_dma_alignment sample = 8"
    by (simp add: sample_def direct_file_def)
  have rd: "fst (read_dma sample (device start) (10 - 2) 48) = Inr ''89abcdefghijklmnopqrst''"
    by (simp add: sample_def direct_file_def direct_read_def)
  have h4: "dma_read_bulk sample 10 40 start =
     Some (Inr (map Some ''abcdefghijklmnopqrst''),
           \<lparr>device = (), reads = [(8, 48, Inr ''89abcdefghijklmnopqrst''),
                                    (30, 24, Inl (System_error EINVAL))]\<rparr>)"
    by code_simp
  note t = dma_read_bulk_trims [OF h1 h2 h3, of 10 40 start, unfolded Let_def a fr len rd]
  from t obtain res s' evs where
    run: "dma_read_bulk sample 10 40 start = Some (res, s')" and
    tr: "reads s' = reads start @ (10 - 2, 48, Inr ''89abcdefghijklmnopqrst'') # evs" and
    iss: "issued sample (device (start :: (unit, char) io_state))
            ((10 - 2, 48, Inr ''89abcdefghijklmnopqrst'') # evs) (device s')" and
    ok: "(\<exists>bytes. snd (snd (10 - 2 :: u64, 48 :: u64, Inr ''89abcdefghijklmnopqrst'' :: io_error + char list)) = Inr bytes) \<and>
         (\<forall>p l e. (p, l, Inl e) \<in> set evs \<longrightarrow> e = System_error EINVAL) \<longrightarrow>
           res = Inr (map Some (drop (unat (2 :: u64))
                        (take (unat (48 :: u64))
                           (bytes_read ((10 - 2, 48, Inr ''89abcdefghijklmnopqrst'') # evs)))))"
    by blast
  from run h4 have res: "res = Inr (map Some ''abcdefghijklmnopqrst'')"
    and s': "s' = \<lparr>device = (), reads = [(8, 48, Inr ''89abcdefghijklmnopqrst''),
                                    (30, 24, Inl (System_error EINVAL))]\<rparr>"
    by simp_all
  from tr have evs: "evs = [(30, 24, Inl (System_error EINVAL))]"
    by (simp add: s' start_def)
  from iss have c1: "issued sample () [(8, 48, Inr ''89abcdefghijklmnopqrst''),
                     (30, 24, Inl (System_error EINVAL))] ()"
    unfolding evs by (simp add: start_def)
  from ok have c2: "(Inr (map Some ''abcdefghijklmnopqrst'') :: io_error + char temporary_buffer) =
      Inr (map Some (drop (unat (2 :: u64))
             (take (unat (48 :: u64)) (bytes_read [(8, 48, Inr ''89abcdefghijklmnopqrst''),
                                    (30, 24, Inl (System_error EINVAL))]))))"
    unfolding evs res by simp
  (* a file whose reads are short *)
  let ?S = "short_file ''0123456789abcdefghijklmnopqrst'' 16 8"
  have i1: "disk_read_dma_alignment ?S = 2 ^ 3" by (simp add: short_file_def)
  have i3: "read_dma_bounded ?S" by (rule short_file_bounded)
  have ia: "disk_read_dma_alignment ?S = 8" by (simp add: short_file_def)
  have ird: "fst (read_dma ?S (device start) (10 - 2) 48) = Inr ''89abcdefghijklmn''"
    by (simp add: short_file_def short_read_def)
  have i4: "dma_read_bulk ?S 10 40 start =
     Some (Inr (map Some ''abcdefghijklmnopqrst''),
           \<lparr>device = (), reads = [(8, 48, Inr ''89abcdefghijklmn''),
                                    (24, 32, Inr ''opqrst''),
                                    (30, 24, Inr [])]\<rparr>)"
    by code_simp
  note ti = dma_read_bulk_trims [OF i1 h2 i3, of 10 40 start, unfolded Let_def ia fr len ird]
  from ti obtain res2 s2 evs2 where
    run2: "dma_read_bulk ?S 10 40 start = Some (res2, s2)" and
    tr2: "reads s2 = reads start @ (10 - 2, 48, Inr ''89abcdefghijklmn'') # evs2" and
    ok2: "(\<exists>bytes. snd (snd (10 - 2 :: u64, 48 :: u64, Inr ''89abcdefghijklmn'' :: io_error + char list)) = Inr bytes) \<and>
         (\<forall>p l e. (p, l, Inl e) \<in> set evs2 \<longrightarrow> e = System_error EINVAL) \<longrightarrow>
           res2 = Inr (map Some (drop (unat (2 :: u64))
                        (take (unat (48 :: u64))
                           (bytes_read ((10 - 2, 48, Inr ''89abcdefghijklmn'') # evs2)))))"
    by blast
  from run2 i4 have res2: "res2 = Inr (map Some ''abcdefghijklmnopqrst'')"
    and s2: "s2 = \<lparr>device = (), reads = [(8, 48, Inr ''89abcdefghijklmn''),
                                    (24, 32, Inr ''opqrst''), (30, 24, Inr [])]\<rparr>"
    by simp_all
  from tr2 have evs2: "evs2 = [(24, 32, Inr ''opqrst''), (30, 24, Inr [])]"
    by (simp add: s2 start_def)
  from ok2 have d2: "(Inr (map Some ''abcdefghijklmnopqrst'') :: io_error + char temporary_buffer) =
      Inr (map Some (drop (unat (2 :: u64))
             (take (unat (48 :: u64)) (bytes_read [(8, 48, Inr ''89abcdefghijklmn''),
                                    (24, 32, Inr ''opqrst''),
                                    (30, 24, Inr [])]))))"
    unfolding evs2 res2 by simp
  (* a file whose first read fails *)
  let ?F = "failing_file ''0123456789abcdefghijklmnopqrst'' (System_error 5) 8"
  let ?s0 = "\<lparr>device = 0 :: nat, reads = [] :: (u64 \<times> u64 \<times> (io_error + char list)) list\<rparr>"
  let ?s1 = "\<lparr>device = 1 :: nat, reads = [] :: (u64 \<times> u64 \<times> (io_error + char list)) list\<rparr>"
  have j1: "disk_read_dma_alignment ?F = 2 ^ 3" by (simp add: failing_file_def)
  have j3: "read_dma_bounded ?F" by (rule failing_file_bounded)
  have ja: "disk_read_dma_alignment ?F = 8" by (simp add: failing_file_def)
  have jrd: "fst (read_dma ?F (device ?s0) (10 - 2) 48) = Inl (System_error 5)"
    by (simp add: failing_file_def failing_read_def)
  note tj = dma_read_bulk_trims [OF j1 h2 j3, of 10 40 ?s0, unfolded Let_def ja fr len jrd]
  from tj obtain res3 s3 evs3 where
    run3: "dma_read_bulk ?F 10 40 ?s0 = Some (res3, s3)" and
    tr3: "reads s3 = reads ?s0 @ (10 - 2, 48, Inl (System_error 5)) # evs3" and
    fl3: "\<forall>e. snd (snd (10 - 2 :: u64, 48 :: u64, Inl (System_error 5) :: io_error + char list)) = Inl e \<longrightarrow>
            res3 = Inl e \<and> evs3 = []"
    by blast
  from fl3 have "res3 = Inl (System_error 5)" and "evs3 = []" by simp_all
  with run3 tr3 have e3: "\<exists>s'. dma_read_bulk ?F 10 40 ?s0 = Some (Inl (System_error 5), s') \<and>
         reads s' = [(8, 48, Inl (System_error 5))]"
    by simp
  (* a file whose second read fails *)
  have krd: "fst (read_dma ?F (device ?s1) (10 - 2) 48) = Inr ''89abcdefghijklmnopqrst''"
    by (simp add: failing_file_def failing_read_def)
  have k4: "dma_read_bulk ?F 10 40 ?s1 =
     Some (Inl (System_error 5),
           \<lparr>device = 0, reads = [(8, 48, Inr ''89abcdefghijklmnopqrst''),
                                   (30, 24, Inl (System_error 5))]\<rparr>)"
    by code_simp
  note tk = dma_read_bulk_trims [OF j1 h2 j3, of 10 40 ?s1, unfolded Let_def ja fr len krd]
  from tk obtain res4 s4 evs4 where
    run4: "dma_read_bulk ?F 10 40 ?s1 = Some (res4, s4)" and
    tr4: "reads s4 = reads ?s1 @ (10 - 2, 48, Inr ''89abcdefghijklmnopqrst'') # evs4" and
    fl4: "\<forall>p l e. (p, l, Inl e) \<in> set evs4 \<and> e \<noteq> System_error EINVAL \<longrightarrow> res4 = Inl e"
    by blast
  from run4 k4 have s4: "s4 = \<lparr>device = 0, reads = [(8, 48, Inr ''89abcdefghijklmnopqrst''),
                                   (30, 24, Inl (System_error 5))]\<rparr>"
    by simp
  from tr4 have "evs4 = [(30, 24, Inl (System_error 5))]" by (simp add: s4)
  with fl4 einval have "res4 = Inl (System_error 5)" by simp
  with run4 s4 have f4: "dma_read_bulk ?F 10 40 ?s1 =
     Some (Inl (System_error 5),
           \<lparr>device = 0, reads = [(8, 48, Inr ''89abcdefghijklmnopqrst''),
                                   (30, 24, Inl (System_error 5))]\<rparr>)"
    by simp
  from h1 h2 h3 t [THEN conjunct1] h4 c1 c2 i3 i4 d2 j3 e3 f4 show ?thesis by (intro conjI)
qed

theorem einval_on_follow_up_read_is_eof_witness:
  "disk_read_dma_alignment sample = 2 ^ 3 \<and> (3::nat) < 64 \<and> read_dma_bounded sample \<and>
   dma_read_bulk sample 10 40 start =
     Some (Inr (map Some ''abcdefghijklmnopqrst''),
           \<lparr>device = (), reads = [(8, 48, Inr ''89abcdefghijklmnopqrst''),
                                    (30, 24, Inl (System_error EINVAL))]\<rparr>) \<and>
   reads \<lparr>device = (), reads = [(8, 48, Inr ''89abcdefghijklmnopqrst''),
                                (30, 24, Inl (System_error EINVAL))]\<rparr> =
     reads start @ (8, 48, Inr ''89abcdefghijklmnopqrst'') # [(30, 24, Inl (System_error EINVAL))] \<and>
   (30, 24, Inl (System_error EINVAL)) \<in> set [(30, 24, Inl (System_error EINVAL) :: io_error + char list)] \<and>
   (30 :: u64, 24 :: u64, Inl (System_error EINVAL) :: io_error + char list) =
      last [(30, 24, Inl (System_error EINVAL))] \<and>
   (Inr (map Some ''abcdefghijklmnopqrst'') :: io_error + char temporary_buffer) =
      Inr (map Some (drop (unat (10 AND (disk_read_dma_alignment sample - 1) :: u64))
             (take (unat (48 :: u64)) (bytes_read [(8, 48, Inr ''89abcdefghijklmnopqrst''),
                                    (30, 24, Inl (System_error EINVAL))]))))"
proof -
  have h1: "disk_read_dma_alignment sample = 2 ^ 3"
    by (simp add: sample_def direct_file_def)
  have h2: "(3::nat) < 64" by simp
  have h3: "read_dma_bounded sample"
    unfolding sample_def by (rule direct_file_bounded)
  have h4: "dma_read_bulk sample 10 40 start =
     Some (Inr (map Some ''abcdefghijklmnopqrst''),
           \<lparr>device = (), reads = [(8, 48, Inr ''89abcdefghijklmnopqrst''),
                                    (30, 24, Inl (System_error EINVAL))]\<rparr>)"
    by code_simp
  have h5: "reads \<lparr>device = (), reads = [(8, 48, Inr ''89abcdefghijklmnopqrst''),
                                (30, 24, Inl (System_error EINVAL))]\<rparr> =
     reads start @ (8, 48, Inr ''89abcdefghijklmnopqrst'') # [(30, 24, Inl (System_error EINVAL))]"
    by (simp add: start_def)
  have h6: "(30, 24, Inl (System_error EINVAL)) \<in> set [(30, 24, Inl (System_error EINVAL) :: io_error + char list)]"
    by simp
  from einval_on_follow_up_read_is_eof [OF h1 h2 h3 h4 h5 h6] h1 h2 h3 h4 h5 h6
  show ?thesis by simp
qed

text \<open>
  Claim C4 as stated fails: on a file of 100 bytes with an alignment of 512, the bulk read
  of 512 bytes at offset 0 reads 100 bytes, its follow-up read at position 100 fails with
  \<^verbatim>\<open>EINVAL\<close>, and the caller receives the 100 bytes, not an empty buffer.
\<close>

theorem einval_on_follow_up_read_counterexample:
  "dma_read_bulk (direct_file (replicate 100 CHR ''x'') 512) 0 512 start =
     Some (Inr (replicate 100 (Some CHR ''x'')),
           \<lparr>device = (),
              reads = [(0, 512, Inr (replicate 100 CHR ''x'')),
                       (100, 512, Inl (System_error EINVAL))]\<rparr>) \<and>
   replicate 100 (Some CHR ''x'') \<noteq> []"
  by code_simp

section \<open>The application template: \<^verbatim>\<open>app_template::run_deprecated\<close>\<close>














































section \<open>Futures and their continuations\<close>

text \<open>
  The exceptions that the tests throw: a \<^verbatim>\<open>std::runtime_error\<close> with its text, the tests'
  own \<^verbatim>\<open>expected_exception\<close>, and a bare \<^verbatim>\<open>int\<close>.
\<close>

datatype exception_ptr = Runtime_error string | Expected_exception | Thrown_int int

text \<open>What calling a C++ function does: it returns a value or throws.\<close>

datatype 'a call = Returns 'a | Throws exception_ptr

text \<open>
  Modelled from the spec: \<^verbatim>\<open>core/future.hh\<close> is not among the sources. A future is
  modelled by what it resolves to, a value or a failure. A continuation attached to a
  future runs once the future has resolved, on the state of that moment, be the future
  ready when the continuation is attached or fulfilled through its promise later; the
  state is passed through the continuations in the order in which they run. A continuation
  returns a future (a plain value is a ready future) or throws.

  \<^item> \<^verbatim>\<open>then(cont)\<close> runs the continuation on the value of a ready future, and forwards a
    failure, skipping the continuation;
  \<^item> \<^verbatim>\<open>then_wrapped(cont)\<close> hands the future itself to the continuation;
  \<^item> \<^verbatim>\<open>finally(action)\<close> always runs the action and forwards success or failure
    afterwards; if the action itself fails, that failure supersedes a prior success but
    not a prior failure.
  A continuation that throws fails the future that the combinator returns.
\<close>

datatype 'a future = Ready 'a | Failed exception_ptr

definition make_ready_future :: "'a \<Rightarrow> 'a future" where
  "make_ready_future v = Ready v"

definition futurized :: "'a future call \<times> 'w \<Rightarrow> 'a future \<times> 'w" where
  "futurized r = (case r of (Returns fut, w) \<Rightarrow> (fut, w) | (Throws e, w) \<Rightarrow> (Failed e, w))"

definition future_then ::
  "'a future \<Rightarrow> ('a \<Rightarrow> 'w \<Rightarrow> 'b future call \<times> 'w) \<Rightarrow> 'w \<Rightarrow> 'b future \<times> 'w" where
  "future_then fut cont w =
     (case fut of
        Ready v \<Rightarrow> futurized (cont v w)
      | Failed e \<Rightarrow> (Failed e, w))"

definition then_wrapped ::
  "'a future \<Rightarrow> ('a future \<Rightarrow> 'w \<Rightarrow> 'b future call \<times> 'w) \<Rightarrow> 'w \<Rightarrow> 'b future \<times> 'w" where
  "then_wrapped fut cont w = futurized (cont fut w)"

definition future_finally ::
  "'a future \<Rightarrow> ('w \<Rightarrow> unit future call \<times> 'w) \<Rightarrow> 'w \<Rightarrow> 'a future \<times> 'w" where
  "future_finally fut action w =
     (case futurized (action w) of
        (Ready u, w') \<Rightarrow> (fut, w')
      | (Failed e, w') \<Rightarrow>
          (case fut of
             Ready v \<Rightarrow> (Failed e, w')
           | Failed prior \<Rightarrow> (Failed prior, w')))"

text \<open>
  The state of the tests of \<^verbatim>\<open>tests/futures_test.cc\<close> below: the two shared flags, and the
  number of \<^verbatim>\<open>BOOST_REQUIRE\<close>s that did not hold.
\<close>

record flags =
  finally1 :: bool
  finally2 :: bool
  failed_requirements :: nat

definition BOOST_REQUIRE :: "bool \<Rightarrow> flags \<Rightarrow> flags" where
  "BOOST_REQUIRE c w = (if c then w else w\<lparr>failed_requirements := Suc (failed_requirements w)\<rparr>)"

text \<open>\<^verbatim>\<open>test_finally_is_called_on_success_and_failure\<close>.\<close>

definition test_finally_is_called_on_success_and_failure :: "flags \<Rightarrow> unit future \<times> flags" where
  "test_finally_is_called_on_success_and_failure w0 =
     (case future_then (make_ready_future ()) (\<lambda>u w. (Returns (Ready ()), w)) w0 of (f1, w1) \<Rightarrow>
      case future_finally f1 (\<lambda>w. (Returns (Ready ()), w\<lparr>finally1 := True\<rparr>)) w1 of (f2, w2) \<Rightarrow>
      case future_then f2 (\<lambda>u w. (Throws (Runtime_error '''') :: unit future call, w)) w2
             of (f3, w3) \<Rightarrow>
      case future_finally f3 (\<lambda>w. (Returns (Ready ()), w\<lparr>finally2 := True\<rparr>)) w3 of (f4, w4) \<Rightarrow>
      then_wrapped f4
        (\<lambda>f w. (Returns (Ready ()),
           (case f of
              Ready u \<Rightarrow> BOOST_REQUIRE False
            | Failed e \<Rightarrow> (\<lambda>w. w))
             (BOOST_REQUIRE (finally2 w) (BOOST_REQUIRE (finally1 w) w)))) w4)"

text \<open>
  \<^verbatim>\<open>test_exception_from_finally_fails_the_target\<close>; the promise is fulfilled with
  \<^verbatim>\<open>set_value()\<close> after the chain is built.
\<close>

definition test_exception_from_finally_fails_the_target :: "flags \<Rightarrow> unit future \<times> flags" where
  "test_exception_from_finally_fails_the_target w0 =
     (case future_finally (Ready ()) (\<lambda>w. (Throws (Runtime_error ''''), w)) w0 of (f1, w1) \<Rightarrow>
      case future_then f1 (\<lambda>u w. (Returns (Ready ()), BOOST_REQUIRE False w)) w1 of (f2, w2) \<Rightarrow>
      then_wrapped f2 (\<lambda>f w. (Returns (Ready ()), w)) w2)"

lemma finally_tests_pass:
  "test_finally_is_called_on_success_and_failure
      \<lparr>finally1 = False, finally2 = False, failed_requirements = 0\<rparr> =
     (Ready (), \<lparr>finally1 = True, finally2 = True, failed_requirements = 0\<rparr>)"
  "test_exception_from_finally_fails_the_target
      \<lparr>finally1 = False, finally2 = False, failed_requirements = 0\<rparr> =
     (Ready (), \<lparr>finally1 = False, finally2 = False, failed_requirements = 0\<rparr>)"
  by (simp_all add: test_finally_is_called_on_success_and_failure_def
      test_exception_from_finally_fails_the_target_def future_then_def future_finally_def
      then_wrapped_def futurized_def make_ready_future_def BOOST_REQUIRE_def)

text \<open>
  Claim C1. For every future \<open>f\<close> and every action \<open>a\<close>, \<^verbatim>\<open>f.finally(a)\<close> runs \<open>a\<close>, whether
  \<open>f\<close> resolved with a value or with a failure: the state afterwards is the one \<open>a\<close> leaves.
  The resulting future carries the outcome of \<open>f\<close> when \<open>a\<close> succeeds; when \<open>a\<close> fails, by
  throwing or by returning a failed future, its failure takes the place of a value of \<open>f\<close>,
  and a failure of \<open>f\<close> stays. Hence in \<^verbatim>\<open>f.finally(a).then(g)\<close> the action has run on both
  paths, and \<open>g\<close> runs after it, on the state \<open>a\<close> left, when both \<open>f\<close> and \<open>a\<close> succeeded.
\<close>

theorem finally_runs_action_and_forwards:
  "snd (future_finally f a w) = snd (a w) \<and>
   (\<forall>u. fst (a w) = Returns (Ready u) \<longrightarrow> fst (future_finally f a w) = f) \<and>
   (\<forall>e. fst (a w) = Throws e \<or> fst (a w) = Returns (Failed e) \<longrightarrow>
        fst (future_finally f a w) = (case f of Ready v \<Rightarrow> Failed e | Failed prior \<Rightarrow> Failed prior)) \<and>
   (case future_finally f a w of (f', w') \<Rightarrow> future_then f' g w') =
     (case (f, fst (a w)) of
        (Ready v, Returns (Ready u)) \<Rightarrow> futurized (g v (snd (a w)))
      | (Ready v, Returns (Failed e)) \<Rightarrow> (Failed e, snd (a w))
      | (Ready v, Throws e) \<Rightarrow> (Failed e, snd (a w))
      | (Failed prior, r) \<Rightarrow> (Failed prior, snd (a w)))"
  by (cases "a w"; cases "fst (a w)"; cases f)
     (auto simp: future_finally_def future_then_def futurized_def split: future.splits)

theorem finally_runs_action_and_forwards_witness:
  "snd (future_finally (Ready (5::nat)) (\<lambda>w. (Returns (Ready ()), Suc w)) (0::nat)) = 1 \<and>
   fst (future_finally (Ready (5::nat)) (\<lambda>w. (Returns (Ready ()), Suc w)) (0::nat)) = Ready 5 \<and>
   fst (future_finally (Ready (5::nat)) (\<lambda>w. (Throws Expected_exception, Suc w)) (0::nat)) =
     Failed Expected_exception \<and>
   fst (future_finally (Failed (Runtime_error ''prior'') :: nat future)
          (\<lambda>w. (Throws Expected_exception, Suc w)) (0::nat)) = Failed (Runtime_error ''prior'')"
proof -
  note t = finally_runs_action_and_forwards
  have a: "fst ((\<lambda>w. (Returns (Ready ()), Suc w)) (0::nat)) = Returns (Ready ())" by simp
  have b: "fst ((\<lambda>w. (Throws Expected_exception :: unit future call, Suc w)) (0::nat)) =
             Throws Expected_exception \<or>
           fst ((\<lambda>w. (Throws Expected_exception :: unit future call, Suc w)) (0::nat)) =
             Returns (Failed Expected_exception)" by simp
  from t [of "Ready (5::nat)" "\<lambda>w. (Returns (Ready ()), Suc w)" "0::nat", THEN conjunct1]
  have 1: "snd (future_finally (Ready (5::nat)) (\<lambda>w. (Returns (Ready ()), Suc w)) (0::nat)) = 1"
    by simp
  from t [of "Ready (5::nat)" "\<lambda>w. (Returns (Ready ()), Suc w)" "0::nat",
      THEN conjunct2, THEN conjunct1, rule_format, OF a]
  have 2: "fst (future_finally (Ready (5::nat)) (\<lambda>w. (Returns (Ready ()), Suc w)) (0::nat)) = Ready 5" .
  from t [of "Ready (5::nat)" "\<lambda>w. (Throws Expected_exception, Suc w)" "0::nat",
      THEN conjunct2, THEN conjunct2, THEN conjunct1, rule_format, OF b]
  have 3: "fst (future_finally (Ready (5::nat)) (\<lambda>w. (Throws Expected_exception, Suc w)) (0::nat)) =
     Failed Expected_exception" by simp
  from t [of "Failed (Runtime_error ''prior'') :: nat future"
      "\<lambda>w. (Throws Expected_exception, Suc w)" "0::nat",
      THEN conjunct2, THEN conjunct2, THEN conjunct1, rule_format, OF b]
  have 4: "fst (future_finally (Failed (Runtime_error ''prior'') :: nat future)
          (\<lambda>w. (Throws Expected_exception, Suc w)) (0::nat)) = Failed (Runtime_error ''prior'')"
    by simp
  from 1 2 3 4 show ?thesis by blast
qed

subsection \<open>\<^verbatim>\<open>parallel_for_each\<close> and a failing subtask\<close>

text \<open>
  Modelled from the spec: \<^verbatim>\<open>parallel_for_each\<close> is declared in \<^verbatim>\<open>core/future-util.hh\<close>, which
  is not among the sources. It starts the function on every element of the range; the
  subtasks run to completion one after the other in some order, here the order of the list
  (in the test below, the time each of them sleeps decides it); the future it returns
  resolves after all of them, and when subtasks failed it fails with the failure of the
  one that failed first.
\<close>

fun parallel_for_each :: "'i list \<Rightarrow> ('i \<Rightarrow> 'w \<Rightarrow> unit future \<times> 'w) \<Rightarrow> 'w \<Rightarrow> unit future \<times> 'w" where
  "parallel_for_each [] func w = (Ready (), w)"
| "parallel_for_each (x # xs) func w =
     (case func x w of (r, w') \<Rightarrow>
      case parallel_for_each xs func w' of (rs, w'') \<Rightarrow>
        (case r of Failed e \<Rightarrow> Failed e | Ready u \<Rightarrow> rs, w''))"

text \<open>
  The subtask of \<^verbatim>\<open>test_parallel_for_each_early_failure\<close>, once its sleep is over: it counts
  itself, and fails with its index \<open>i\<close> when \<^verbatim>\<open>i % 1777 == 1337\<close>. The state is the counter.
  The remainder of C++ has the sign of the dividend; it is \<open>smod\<close>.
\<close>

definition early_failure_subtask :: "int \<Rightarrow> int \<Rightarrow> unit future \<times> int" where
  "early_failure_subtask i counter =
     futurized
       (if i smod 1777 = 1337 then Returns (Failed (Thrown_int i)) else Returns (Ready ()),
        counter + 1)"

text \<open>
  The test: the subtasks for the range \<^verbatim>\<open>boost::irange(0, 11000)\<close>, in the order in which
  they complete, started on a counter of 0; then the checks of the \<^verbatim>\<open>then_wrapped\<close>
  continuation, as the number of them that fail.
\<close>

definition test_parallel_for_each_early_failure :: "int list \<Rightarrow> unit future \<times> int \<times> nat" where
  "test_parallel_for_each_early_failure order =
     (case parallel_for_each order early_failure_subtask 0 of (f, counter) \<Rightarrow>
        (f, counter,
         (if counter = 11000 then 0 else 1) +
         (case f of
            Ready u \<Rightarrow> 2
          | Failed (Thrown_int i) \<Rightarrow> (if i smod 1777 = 1337 then 0 else 1)
          | Failed e \<Rightarrow> 1)))"

lemma smod_nonneg: "0 \<le> i \<Longrightarrow> (i::int) smod 1777 = i mod 1777"
  by (simp add: signed_modulo_int_def sgn_if)

lemma early_failure_subtasks_run:
  "parallel_for_each order early_failure_subtask counter =
     (case find (\<lambda>i. i smod 1777 = 1337) order of
        None \<Rightarrow> Ready ()
      | Some i \<Rightarrow> Failed (Thrown_int i),
      counter + int (length order))"
  by (induction order arbitrary: counter)
     (simp_all add: early_failure_subtask_def futurized_def)

text \<open>
  The subtasks of \<^verbatim>\<open>test_parallel_for_each_waits_for_all_fibers_even_if_one_of_them_failed\<close>:
  the second throws, the first sets \<^verbatim>\<open>can_exit\<close> after its sleep. The state is the flag.
\<close>

definition waiting_subtask :: "int \<Rightarrow> bool \<Rightarrow> unit future \<times> bool" where
  "waiting_subtask i can_exit =
     futurized (if i = 1 then (Throws Expected_exception, can_exit) else (Returns (Ready ()), True))"

lemma parallel_for_each_waits_for_all_fibers:
  "parallel_for_each [1, 0] waiting_subtask False = (Failed Expected_exception, True)"
  "parallel_for_each [0, 1] waiting_subtask False = (Failed Expected_exception, True)"
  by (simp_all add: waiting_subtask_def futurized_def)

text \<open>
  Claim C2. Whatever the order in which the 11000 subtasks complete, each of them runs, so
  that the counter ends at 11000, and the future of \<^verbatim>\<open>parallel_for_each\<close> is failed with the
  exception of one of the subtasks, an index \<open>i\<close> below 11000 with \<open>i mod 1777 = 1337\<close>; the
  checks of the test all hold.
\<close>

theorem parallel_for_each_early_failure:
  assumes "mset order = mset (map int [0..<11000])"
  shows "\<exists>i. test_parallel_for_each_early_failure order = (Failed (Thrown_int i), 11000, 0) \<and>
             i mod 1777 = 1337 \<and> 0 \<le> i \<and> i < 11000 \<and>
             parallel_for_each order early_failure_subtask 0 = (Failed (Thrown_int i), 11000)"
proof -
  from assms have len: "length order = 11000"
    using mset_eq_length [of order "map int [0..<11000]"] by simp
  from assms have set: "set order = set (map int [0..<11000])"
    by (rule mset_eq_setD)
  have "int 1337 \<in> set (map int [0..<11000])" by (simp del: upt_Suc)
  with set have "1337 \<in> set order" by simp
  moreover have "(1337::int) smod 1777 = 1337" by (simp add: smod_nonneg)
  ultimately have "find (\<lambda>i. i smod 1777 = 1337) order \<noteq> None"
    by (auto simp: find_None_iff)
  then obtain i where f: "find (\<lambda>i. i smod 1777 = 1337) order = Some i" by blast
  then have si: "i smod 1777 = 1337" and mem: "i \<in> set order"
    by (auto simp: find_Some_iff)
  from mem set have r: "0 \<le> i" "i < 11000" by auto
  from si r(1) have i: "i mod 1777 = 1337" by (simp add: smod_nonneg)
  have p: "parallel_for_each order early_failure_subtask 0 = (Failed (Thrown_int i), 11000)"
    by (simp add: early_failure_subtasks_run f len)
  then have "test_parallel_for_each_early_failure order = (Failed (Thrown_int i), 11000, 0)"
    by (simp add: test_parallel_for_each_early_failure_def si)
  with i r p show ?thesis by blast
qed

theorem parallel_for_each_early_failure_witness:
  "mset (map int [0..<11000]) = mset (map int [0..<11000]) \<and>
   (\<exists>i. test_parallel_for_each_early_failure (map int [0..<11000]) =
           (Failed (Thrown_int i), 11000, 0) \<and>
        i mod 1777 = 1337 \<and> 0 \<le> i \<and> i < 11000 \<and>
        parallel_for_each (map int [0..<11000]) early_failure_subtask 0 =
           (Failed (Thrown_int i), 11000))"
proof -
  have h: "mset (map int [0..<11000]) = mset (map int [0..<11000])" ..
  from h parallel_for_each_early_failure [of "map int [0..<11000]", OF h]
  show ?thesis by (rule conjI)
qed

subsection \<open>\<^verbatim>\<open>smp::submit_to\<close> on the calling shard\<close>

text \<open>
  A callable \<^verbatim>\<open>func\<close> of signature \<^verbatim>\<open>Func()\<close> runs on the state of the shard that calls it;
  it returns a future (a plain value or \<^verbatim>\<open>void\<close> is a ready future) or throws.

  The state of \<^verbatim>\<open>smp\<close> seen from the calling shard: \<^verbatim>\<open>engine().cpu_id()\<close>, the state of the
  shard, and for every pair of shards the work items of the queue \<^verbatim>\<open>_qs[t][from]\<close>.
\<close>

type_synonym ('w, 'a) func = "'w \<Rightarrow> 'a future call \<times> 'w"

record ('w, 'a) smp =
  cpu_id :: nat
  shard :: 'w
  qs :: "nat \<Rightarrow> nat \<Rightarrow> ('w, 'a) func list"

text \<open>
  What \<^verbatim>\<open>submit_to\<close> returns: a future, by what it resolves to, or the future of a work
  item, which is not ready; the work item is named by its place in its queue.
\<close>

datatype 'a submitted = Future "'a future" | Future_of_work_item nat

text \<open>
  \<^verbatim>\<open>smp_message_queue::submit\<close> of the queue \<^verbatim>\<open>_qs[t][from]\<close>: a new work item for the
  callable goes to the queue, and its future is returned.
\<close>

definition submit :: "nat \<Rightarrow> nat \<Rightarrow> ('w, 'a) func \<Rightarrow> ('w, 'a) smp \<Rightarrow> 'a submitted \<times> ('w, 'a) smp" where
  "submit t from func s =
     (Future_of_work_item (length (qs s t from)),
      s\<lparr>qs := (qs s)(t := (qs s t)(from := qs s t from @ [func]))\<rparr>)"

text \<open>
  \<^verbatim>\<open>smp::submit_to(t, func)\<close>. \<^verbatim>\<open>futurize<ret_type>::apply\<close> is declared in
  \<^verbatim>\<open>core/future.hh\<close>, which is not among the sources, and is a parameter: it calls the
  callable, and returns a future or throws. The two flags are the compile-time conditions
  \<^verbatim>\<open>is_future<ret_type>::value\<close> and \<^verbatim>\<open>std::is_lvalue_reference<Func>::value\<close>. In the third
  branch the continuation that \<^verbatim>\<open>finally\<close> adds has an empty body and only keeps the moved
  callable alive. An exception that leaves the \<^verbatim>\<open>try\<close> block is caught and returned as a
  failed future.
\<close>

definition submit_to ::
  "(('w, 'a) func \<Rightarrow> 'w \<Rightarrow> 'a future call \<times> 'w) \<Rightarrow> bool \<Rightarrow> bool \<Rightarrow>
     nat \<Rightarrow> ('w, 'a) func \<Rightarrow> ('w, 'a) smp \<Rightarrow> 'a submitted call \<times> ('w, 'a) smp" where
  "submit_to apply ret_is_future func_is_lvalue t func s =
     (if t = cpu_id s then
        (case
           (if \<not> ret_is_future then apply func (shard s)
            else if func_is_lvalue then apply func (shard s)
            else
              (case apply func (shard s) of
                 (Returns ret, w') \<Rightarrow>
                   (Returns (fst (future_finally ret (\<lambda>w. (Returns (Ready ()), w)) w')), w')
               | (Throws e, w') \<Rightarrow> (Throws e, w')))
         of
           (Returns fut, w') \<Rightarrow> (Returns (Future fut), s\<lparr>shard := w'\<rparr>)
         | (Throws e, w') \<Rightarrow> (Returns (Future (Failed e)), s\<lparr>shard := w'\<rparr>))
      else
        (case submit t (cpu_id s) func s of (fut, s') \<Rightarrow> (Returns fut, s')))"

text \<open>
  Modelled from the spec: \<^verbatim>\<open>futurize<T>::apply\<close> as the tests \<^verbatim>\<open>futurize_apply_val_exception\<close>
  and \<^verbatim>\<open>futurize_apply_void_exception\<close> of \<^verbatim>\<open>tests/futures_test.cc\<close> have it: an exception
  that the callable throws becomes a failed future.
\<close>

definition futurize_apply :: "('w, 'a) func \<Rightarrow> 'w \<Rightarrow> 'a future call \<times> 'w" where
  "futurize_apply func w = (case futurized (func w) of (fut, w') \<Rightarrow> (Returns fut, w'))"

text \<open>
  What is known of \<^verbatim>\<open>apply\<close>, whichever way it treats exceptions: it calls the callable once,
  on the state it is given, and hands out the future that the callable returns; when the
  callable throws, it throws the same or returns a future failed with it.
\<close>

definition applies :: "(('w, 'a) func \<Rightarrow> 'w \<Rightarrow> 'a future call \<times> 'w) \<Rightarrow> bool" where
  "applies apply \<longleftrightarrow>
     (\<forall>func w. snd (apply func w) = snd (func w) \<and>
        (case fst (func w) of
           Returns fut \<Rightarrow> fst (apply func w) = Returns fut
         | Throws e \<Rightarrow> fst (apply func w) = Throws e \<or> fst (apply func w) = Returns (Failed e)))"

lemma applies_futurize_apply: "applies futurize_apply"
  by (auto simp: applies_def futurize_apply_def futurized_def split: call.splits prod.splits)

lemma applies_call: "applies (\<lambda>func w. func w)"
  by (auto simp: applies_def split: call.splits)

lemma finally_empty_action:
  "fst (future_finally ret (\<lambda>w. (Returns (Ready ()), w)) w') = ret"
  by (simp add: future_finally_def futurized_def)

text \<open>
  Claim C9. When \<open>t\<close> is the calling shard's \<^verbatim>\<open>cpu_id\<close>, \<^verbatim>\<open>submit_to(t, func)\<close> calls \<open>func\<close> on
  the calling shard (the state of the shard afterwards is the one \<open>func\<close> leaves), no
  queue gets a work item, \<^verbatim>\<open>submit_to\<close> returns a future and throws nothing, the future is
  the one \<open>func\<close> returned, and when \<open>func\<close> throws, it is a future failed with the
  exception.
\<close>

theorem submit_to_local:
  assumes "applies apply" and "t = cpu_id s"
  shows "qs (snd (submit_to apply ret_is_future func_is_lvalue t func s)) = qs s \<and>
         cpu_id (snd (submit_to apply ret_is_future func_is_lvalue t func s)) = cpu_id s \<and>
         shard (snd (submit_to apply ret_is_future func_is_lvalue t func s)) = snd (func (shard s)) \<and>
         fst (submit_to apply ret_is_future func_is_lvalue t func s) =
           (case fst (func (shard s)) of
              Returns fut \<Rightarrow> Returns (Future fut)
            | Throws e \<Rightarrow> Returns (Future (Failed e)))"
proof -
  obtain r w' where a: "apply func (shard s) = (r, w')" by (cases "apply func (shard s)")
  obtain c w'' where f: "func (shard s) = (c, w'')" by (cases "func (shard s)")
  from assms(1) a f have w: "w' = w''"
    and r: "case c of Returns fut \<Rightarrow> r = Returns fut
            | Throws e \<Rightarrow> r = Throws e \<or> r = Returns (Failed e)"
    unfolding applies_def by (metis fst_conv snd_conv)+
  show ?thesis
  proof (cases c)
    case (Returns fut)
    with r have "r = Returns fut" by simp
    with a f w Returns assms(2) show ?thesis
      by (simp add: submit_to_def finally_empty_action)
  next
    case (Throws e)
    with r have "r = Throws e \<or> r = Returns (Failed e)" by simp
    with a f w Throws assms(2) show ?thesis
      by (auto simp: submit_to_def finally_empty_action)
  qed
qed

theorem submit_to_local_witness:
  "applies (futurize_apply :: (nat, unit) func \<Rightarrow> nat \<Rightarrow> unit future call \<times> nat) \<and>
   (0::nat) = cpu_id \<lparr>cpu_id = 0, shard = 41 :: nat, qs = (\<lambda>t from. [])\<rparr> \<and>
   fst (submit_to futurize_apply True False 0 (\<lambda>w. (Throws Expected_exception, Suc w))
          \<lparr>cpu_id = 0, shard = 41 :: nat, qs = (\<lambda>t from. [])\<rparr>) =
     Returns (Future (Failed Expected_exception :: unit future)) \<and>
   shard (snd (submit_to futurize_apply True False 0 (\<lambda>w. (Throws Expected_exception :: unit future call, Suc w))
          \<lparr>cpu_id = 0, shard = 41 :: nat, qs = (\<lambda>t from. [])\<rparr>)) = 42"
proof -
  have h1: "applies (futurize_apply :: (nat, unit) func \<Rightarrow> nat \<Rightarrow> unit future call \<times> nat)"
    by (rule applies_futurize_apply)
  have h2: "(0::nat) = cpu_id \<lparr>cpu_id = 0, shard = 41 :: nat, qs = (\<lambda>t from. [])\<rparr>" by simp
  from submit_to_local [OF h1 h2, of True False "\<lambda>w. (Throws Expected_exception, Suc w)"] h1 h2
  show ?thesis by simp
qed

section \<open>The file output stream: \<^verbatim>\<open>file_data_sink_impl::put\<close> with write-behind\<close>

text \<open>
  The writes of the sink finish while later calls of \<^verbatim>\<open>put\<close> are made, so a future of this
  component may be waiting. The sink is a state machine: the application calls \<^verbatim>\<open>put\<close>
  with a buffer of some size, and a \<^verbatim>\<open>do_put\<close> that was started finishes, well or with a
  failure.
\<close>

datatype event = Put nat | Complete nat "unit future"

text \<open>
  \<^verbatim>\<open>_background_writes_done\<close> is built by
  \<^verbatim>\<open>when_all(std::move(_background_writes_done), std::move(this_write_done)).then(merge)\<close>:
  a future that has resolved, followed by the writes whose merge has not run yet, oldest
  first. The merge of a write can run once the write has finished and the merges before it
  have run.
\<close>

record chain =
  resolved :: "unit future"
  unmerged :: "nat list"

text \<open>
  What a call of \<^verbatim>\<open>put\<close> has returned: nothing yet, while its continuation waits for the
  semaphore; a ready future; the accumulated \<^verbatim>\<open>_background_writes_done\<close>; or, without
  write-behind, the future of its own write.
\<close>

datatype put_result =
    Waiting_for_semaphore
  | Ready_future
  | Background_writes chain
  | Write_future nat

text \<open>A \<^verbatim>\<open>dma_write\<close> that \<^verbatim>\<open>do_put\<close> issued, and whether a \<^verbatim>\<open>truncate\<close> follows it.\<close>

record write_request =
  write_pos :: nat
  write_size :: nat
  truncate_after :: bool

text \<open>
  The sink: its options and the alignment of the file, \<^verbatim>\<open>_pos\<close>, the semaphore
  \<^verbatim>\<open>_write_behind_sem\<close> (its free units, and the continuations of \<^verbatim>\<open>put\<close> that wait for one,
  each with the number of its call, its position and the size of its buffer),
  \<^verbatim>\<open>_background_writes_done\<close>, \<^verbatim>\<open>_failed\<close>, the writes issued so far with the outcome of those
  that have finished, what each call of \<^verbatim>\<open>put\<close> has returned, and whether an \<^verbatim>\<open>assert\<close>
  has aborted the program.
\<close>

record sink =
  write_behind :: nat
  disk_write_dma_alignment :: nat
  sink_pos :: nat
  sem_count :: nat
  sem_waiters :: "(nat \<times> nat \<times> nat) list"
  background_writes_done :: chain
  failed :: bool
  writes :: "(write_request \<times> unit future option) list"
  puts :: "put_result list"
  aborted :: bool

definition file_data_sink_impl :: "nat \<Rightarrow> nat \<Rightarrow> sink" where
  "file_data_sink_impl alignment behind =
     \<lparr>write_behind = behind, disk_write_dma_alignment = alignment, sink_pos = 0,
      sem_count = behind, sem_waiters = [],
      background_writes_done = \<lparr>resolved = Ready (), unmerged = []\<rparr>,
      failed = False, writes = [], puts = [], aborted = False\<rparr>"

text \<open>
  \<^verbatim>\<open>v & (alignment - 1)\<close> is not zero, on 64-bit words: \<open>v\<close> is not aligned.
\<close>

definition misaligned :: "nat \<Rightarrow> nat \<Rightarrow> bool" where
  "misaligned v alignment \<longleftrightarrow> (of_nat v :: u64) AND (of_nat alignment - 1) \<noteq> 0"

text \<open>
  \<^verbatim>\<open>do_put(pos, buf)\<close>: the position has to be aligned, or the \<^verbatim>\<open>assert\<close> aborts; a buffer
  whose size is not aligned is copied to one of the size that \<^verbatim>\<open>align_up\<close> gives, and the
  file is truncated after the write. The write is issued; its number is its place among the
  writes.
\<close>

definition do_put :: "nat \<Rightarrow> nat \<Rightarrow> sink \<Rightarrow> sink" where
  "do_put p sz s =
     (if misaligned p (disk_write_dma_alignment s) then s\<lparr>aborted := True\<rparr>
      else
        let truncate = misaligned sz (disk_write_dma_alignment s);
            buf_size = (if truncate
                        then unat (align_up (of_nat sz) (of_nat (disk_write_dma_alignment s)))
                        else sz)
        in s\<lparr>writes := writes s @
                 [(\<lparr>write_pos = p, write_size = buf_size, truncate_after = truncate\<rparr>, None)]\<rparr>)"

text \<open>
  The continuation of \<^verbatim>\<open>_write_behind_sem.wait()\<close> in \<^verbatim>\<open>put\<close>, for call number \<open>n\<close>, run with
  a unit of the semaphore taken. After a failure it gives the unit back, returns the
  accumulated future and puts a ready one in its place; the second component says that the
  unit was given back. Otherwise it issues the write, whose \<^verbatim>\<open>finally\<close> will give the unit
  back, chains the write to \<^verbatim>\<open>_background_writes_done\<close> and returns a ready future.
\<close>

definition put_continuation :: "nat \<Rightarrow> nat \<Rightarrow> nat \<Rightarrow> sink \<Rightarrow> sink \<times> bool" where
  "put_continuation n p sz s =
     (if failed s
      then (s\<lparr>puts := (puts s)[n := Background_writes (background_writes_done s)],
               background_writes_done := \<lparr>resolved = Ready (), unmerged = []\<rparr>\<rparr>, True)
      else
        (let s' = do_put p sz s
         in if aborted s' then (s', False)
            else
              (s'\<lparr>background_writes_done :=
                     (background_writes_done s)
                       \<lparr>unmerged := unmerged (background_writes_done s) @ [length (writes s)]\<rparr>,
                   puts := (puts s)[n := Ready_future]\<rparr>, False)))"

text \<open>
  Modelled from the spec: the semaphore is declared in \<^verbatim>\<open>core/semaphore.hh\<close>, which is not
  among the sources; the spec has it limit the number of writes in flight. \<^verbatim>\<open>signal()\<close>
  gives a unit back: the continuation that has waited longest takes it and runs, and if
  that one gives it back in turn, the next; with no continuation waiting the unit is free.
\<close>

fun signal :: "(nat \<times> nat \<times> nat) list \<Rightarrow> sink \<Rightarrow> sink" where
  "signal [] s = s\<lparr>sem_waiters := [], sem_count := Suc (sem_count s)\<rparr>"
| "signal ((n, p, sz) # ws) s =
     (case put_continuation n p sz s of
        (s', given_back) \<Rightarrow>
          if aborted s' then s'
          else if given_back then signal ws s'
          else s'\<lparr>sem_waiters := ws\<rparr>)"

text \<open>
  The merge of \<^verbatim>\<open>put\<close>, for the writes of a chain that have finished, oldest first: a failure
  that the chain holds stays, and the outcome of the write is dropped; otherwise the
  outcome of the write is the new one, and \<^verbatim>\<open>_failed\<close> is set if it is a failure. The flag
  is threaded through.
\<close>

fun merge :: "(write_request \<times> unit future option) list \<Rightarrow> unit future \<Rightarrow> nat list \<Rightarrow> bool \<Rightarrow>
    chain \<times> bool" where
  "merge ws e1 [] fl = (\<lparr>resolved = e1, unmerged = []\<rparr>, fl)"
| "merge ws e1 (k # ks) fl =
     (case (if k < length ws then snd (ws ! k) else None) of
        None \<Rightarrow> (\<lparr>resolved = e1, unmerged = k # ks\<rparr>, fl)
      | Some e2 \<Rightarrow>
          (case e1 of
             Failed e \<Rightarrow> merge ws e1 ks fl
           | Ready u \<Rightarrow>
               (case e2 of
                  Failed e \<Rightarrow> merge ws e2 ks True
                | Ready u' \<Rightarrow> merge ws e2 ks fl)))"

definition merge_chain :: "chain \<Rightarrow> sink \<Rightarrow> chain \<times> bool" where
  "merge_chain c s = merge (writes s) (resolved c) (unmerged c) (failed s)"

text \<open>
  The merges that can run, run: those of \<^verbatim>\<open>_background_writes_done\<close>, and those of the
  chains that calls of \<^verbatim>\<open>put\<close> have returned.
\<close>

fun merge_returned :: "put_result list \<Rightarrow> sink \<Rightarrow> put_result list \<times> bool" where
  "merge_returned [] s = ([], failed s)"
| "merge_returned (r # rs) s =
     (case r of
        Background_writes c \<Rightarrow>
          (case merge_chain c s of (c', fl) \<Rightarrow>
           case merge_returned rs (s\<lparr>failed := fl\<rparr>) of (rs', fl') \<Rightarrow>
             (Background_writes c' # rs', fl'))
      | other \<Rightarrow>
          (case merge_returned rs s of (rs', fl') \<Rightarrow> (other # rs', fl')))"

definition run_merges :: "sink \<Rightarrow> sink" where
  "run_merges s =
     (case merge_chain (background_writes_done s) s of (c, fl) \<Rightarrow>
      case merge_returned (puts s) (s\<lparr>failed := fl\<rparr>) of (rs, fl') \<Rightarrow>
        s\<lparr>background_writes_done := c, puts := rs, failed := fl'\<rparr>)"

text \<open>
  One event. A call of \<^verbatim>\<open>put\<close> moves \<^verbatim>\<open>_pos\<close> on; without write-behind it returns the
  future of \<^verbatim>\<open>do_put\<close>; with it, its continuation runs if a unit of the semaphore is free,
  and waits otherwise. When a write finishes, the \<^verbatim>\<open>finally\<close> of its \<^verbatim>\<open>do_put\<close> signals the
  semaphore, and the merges that wait for it can run; \<open>merges_first\<close> says which of the
  two happens first.
\<close>

definition step :: "bool \<Rightarrow> event \<Rightarrow> sink \<Rightarrow> sink" where
  "step merges_first ev s =
     (if aborted s then s
      else case ev of
        Put sz \<Rightarrow>
          (let n = length (puts s);
               p = sink_pos s;
               s1 = s\<lparr>sink_pos := sink_pos s + sz, puts := puts s @ [Waiting_for_semaphore]\<rparr>
           in if write_behind s = 0
              then (let s2 = do_put p sz s1
                    in if aborted s2 then s2
                       else s2\<lparr>puts := (puts s1)[n := Write_future (length (writes s))]\<rparr>)
              else if 0 < sem_count s1 \<and> sem_waiters s1 = []
              then (case put_continuation n p sz (s1\<lparr>sem_count := sem_count s1 - 1\<rparr>) of
                      (s2, given_back) \<Rightarrow>
                        if aborted s2 then s2
                        else if given_back then s2\<lparr>sem_count := Suc (sem_count s2)\<rparr> else s2)
              else s1\<lparr>sem_waiters := sem_waiters s1 @ [(n, p, sz)]\<rparr>)
      | Complete k e \<Rightarrow>
          (if k < length (writes s) \<and> snd (writes s ! k) = None
           then (let s1 = s\<lparr>writes := (writes s)[k := (fst (writes s ! k), Some e)]\<rparr>
                 in if write_behind s = 0 then s1
                    else if merges_first
                    then run_merges (signal (sem_waiters s1) (run_merges s1))
                    else run_merges (signal (sem_waiters s1) s1))
           else s))"

definition run :: "bool \<Rightarrow> event list \<Rightarrow> sink \<Rightarrow> sink" where
  "run merges_first evs s = foldl (\<lambda>s ev. step merges_first ev s) s evs"

text \<open>
  The futures that calls of \<^verbatim>\<open>put\<close> have returned in place of a write, in the order of the
  calls.
\<close>

fun is_accumulated :: "put_result \<Rightarrow> bool" where
  "is_accumulated (Background_writes c) = True"
| "is_accumulated r = False"

fun accumulated :: "put_result list \<Rightarrow> chain list" where
  "accumulated [] = []"
| "accumulated (Background_writes c # rs) = c # accumulated rs"
| "accumulated (r # rs) = accumulated rs"

text \<open>
  Write \<open>k\<close> has failed with \<open>e\<close>, and every write issued before it has finished well: it
  is the earliest issued of the writes that failed.
\<close>

definition first_failed ::
  "(write_request \<times> unit future option) list \<Rightarrow> nat \<Rightarrow> exception_ptr \<Rightarrow> bool" where
  "first_failed ws k e \<longleftrightarrow>
     k < length ws \<and> snd (ws ! k) = Some (Failed e) \<and> (\<forall>j < k. snd (ws ! j) = Some (Ready ()))"

text \<open>
  What holds of \<^verbatim>\<open>_background_writes_done\<close> as long as no call has taken it: the writes
  whose merge has not run are the last that were issued; a ready future stands for writes
  that have all finished well, and a failed one holds the failure of the earliest issued
  write that failed.
\<close>

definition chain_ok :: "(write_request \<times> unit future option) list \<Rightarrow> chain \<Rightarrow> bool" where
  "chain_ok ws c \<longleftrightarrow>
     (\<exists>m \<le> length ws. unmerged c = [m..<length ws] \<and>
        (case resolved c of
           Ready u \<Rightarrow> (\<forall>j < m. snd (ws ! j) = Some (Ready ()))
         | Failed e \<Rightarrow> (\<exists>k < m. first_failed ws k e)))"

text \<open>
  What holds of the sink between events, for the continuations \<open>waiters\<close> that wait for
  the semaphore. They wait in the order of their calls, and any call that has taken
  \<^verbatim>\<open>_background_writes_done\<close> was made before them. While none has taken it, \<^verbatim>\<open>_failed\<close>
  is set exactly when it holds a failure; afterwards \<^verbatim>\<open>_failed\<close> is set, a ready future
  is in its place, the first future taken holds the failure of the earliest issued write
  that failed, and every later one is a ready future.
\<close>

definition sink_inv :: "(nat \<times> nat \<times> nat) list \<Rightarrow> sink \<Rightarrow> bool" where
  "sink_inv waiters s \<longleftrightarrow>
     sorted_wrt (<) (map fst waiters) \<and>
     (\<forall>w \<in> set waiters. fst w < length (puts s)) \<and>
     (\<forall>i < length (puts s). is_accumulated (puts s ! i) \<longrightarrow> (\<forall>w \<in> set waiters. i < fst w)) \<and>
     (accumulated (puts s) = [] \<longrightarrow>
        chain_ok (writes s) (background_writes_done s) \<and>
        (failed s \<longleftrightarrow> resolved (background_writes_done s) \<noteq> Ready ())) \<and>
     (accumulated (puts s) \<noteq> [] \<longrightarrow>
        failed s \<and> background_writes_done s = \<lparr>resolved = Ready (), unmerged = []\<rparr> \<and>
        (\<exists>c cs k e. accumulated (puts s) = c # cs \<and> resolved c = Failed e \<and>
            first_failed (writes s) k e \<and>
            (\<forall>c' \<in> set cs. c' = \<lparr>resolved = Ready (), unmerged = []\<rparr>)))"

text \<open>
  Every merge of \<^verbatim>\<open>_background_writes_done\<close> that can run has run: the first write whose
  merge has not run has not finished.
\<close>

definition merges_done :: "sink \<Rightarrow> bool" where
  "merges_done s \<longleftrightarrow>
     (accumulated (puts s) = [] \<longrightarrow>
        (\<forall>k ks. unmerged (background_writes_done s) = k # ks \<longrightarrow>
           k < length (writes s) \<longrightarrow> snd (writes s ! k) = None))"

lemma merge_flag: "fl \<Longrightarrow> snd (merge ws e1 ks fl)"
  by (induction ws e1 ks fl rule: merge.induct)
     (auto split: option.splits future.splits)

lemma merge_returned_flag: "failed s \<Longrightarrow> snd (merge_returned rs s)"
proof (induction rs arbitrary: s)
  case Nil
  then show ?case by simp
next
  case (Cons r rs)
  show ?case
  proof (cases r)
    case (Background_writes c)
    obtain c' fl where m: "merge_chain c s = (c', fl)" by (cases "merge_chain c s")
    with Cons.prems have "fl" using merge_flag [of "failed s" "writes s" "resolved c" "unmerged c"]
      by (simp add: merge_chain_def)
    then have "snd (merge_returned rs (s\<lparr>failed := fl\<rparr>))" by (intro Cons.IH) simp
    moreover obtain rs' fl' where "merge_returned rs (s\<lparr>failed := fl\<rparr>) = (rs', fl')"
      by (cases "merge_returned rs (s\<lparr>failed := fl\<rparr>)")
    ultimately show ?thesis using Background_writes m by simp
  next
    case Waiting_for_semaphore
    with Cons.IH [OF Cons.prems] show ?thesis by (cases "merge_returned rs s") simp
  next
    case Ready_future
    with Cons.IH [OF Cons.prems] show ?thesis by (cases "merge_returned rs s") simp
  next
    case (Write_future k)
    with Cons.IH [OF Cons.prems] show ?thesis by (cases "merge_returned rs s") simp
  qed
qed

lemma run_merges_failed:
  assumes "failed s"
  shows "failed (run_merges s)" and "writes (run_merges s) = writes s"
    and "write_behind (run_merges s) = write_behind s"
    and "aborted (run_merges s) = aborted s"
    and "sem_waiters (run_merges s) = sem_waiters s"
proof -
  obtain c fl where m: "merge_chain (background_writes_done s) s = (c, fl)"
    by (cases "merge_chain (background_writes_done s) s")
  with assms have "fl"
    using merge_flag [of "failed s" "writes s" "resolved (background_writes_done s)"
        "unmerged (background_writes_done s)"]
    by (simp add: merge_chain_def)
  then have "snd (merge_returned (puts s) (s\<lparr>failed := fl\<rparr>))"
    by (intro merge_returned_flag) simp
  moreover obtain rs fl' where mr: "merge_returned (puts s) (s\<lparr>failed := fl\<rparr>) = (rs, fl')"
    by (cases "merge_returned (puts s) (s\<lparr>failed := fl\<rparr>)")
  ultimately show "failed (run_merges s)"
    using m by (simp add: run_merges_def)
  show "writes (run_merges s) = writes s" "write_behind (run_merges s) = write_behind s"
    "aborted (run_merges s) = aborted s" "sem_waiters (run_merges s) = sem_waiters s"
    using m mr by (simp_all add: run_merges_def)
qed

lemma put_continuation_failed:
  "failed s \<Longrightarrow>
     put_continuation n p sz s =
       (s\<lparr>puts := (puts s)[n := Background_writes (background_writes_done s)],
          background_writes_done := \<lparr>resolved = Ready (), unmerged = []\<rparr>\<rparr>, True)"
  by (simp add: put_continuation_def)

lemma signal_failed:
  "failed s \<Longrightarrow> \<not> aborted s \<Longrightarrow>
     failed (signal ws s) \<and> writes (signal ws s) = writes s \<and>
     write_behind (signal ws s) = write_behind s \<and> \<not> aborted (signal ws s)"
proof (induction ws arbitrary: s)
  case Nil
  then show ?case by simp
next
  case (Cons w ws)
  obtain n p sz where w: "w = (n, p, sz)" by (cases w)
  define s' where "s' = s\<lparr>puts := (puts s)[n := Background_writes (background_writes_done s)],
          background_writes_done := \<lparr>resolved = Ready (), unmerged = []\<rparr>\<rparr>"
  have pc: "put_continuation n p sz s = (s', True)"
    unfolding s'_def using Cons.prems(1) by (rule put_continuation_failed)
  have "failed s'" "\<not> aborted s'" using Cons.prems by (simp_all add: s'_def)
  from Cons.IH [OF this] have "failed (signal ws s') \<and> writes (signal ws s') = writes s' \<and>
     write_behind (signal ws s') = write_behind s' \<and> \<not> aborted (signal ws s')" .
  moreover have "signal (w # ws) s = signal ws s'"
    using pc \<open>\<not> aborted s'\<close> by (simp add: w)
  ultimately show ?case by (simp add: s'_def)
qed

lemma step_failed:
  assumes "failed s" and "write_behind s \<noteq> 0"
  shows "failed (step mf ev s) \<and> map fst (writes (step mf ev s)) = map fst (writes s) \<and>
         write_behind (step mf ev s) = write_behind s"
proof (cases "aborted s")
  case True
  with assms show ?thesis by (simp add: step_def)
next
  case na: False
  show ?thesis
  proof (cases ev)
    case (Put sz)
    define s1 where "s1 = s\<lparr>sink_pos := sink_pos s + sz, puts := puts s @ [Waiting_for_semaphore]\<rparr>"
    have f1: "failed (s1\<lparr>sem_count := sem_count s1 - 1\<rparr>)" using assms(1) by (simp add: s1_def)
    note pc = put_continuation_failed [OF f1, of "length (puts s)" "sink_pos s" sz]
    have a1: "\<not> aborted s1" "failed s1" "writes s1 = writes s" "write_behind s1 = write_behind s"
      using assms na by (simp_all add: s1_def)
    have st: "step mf ev s =
        (if 0 < sem_count s1 \<and> sem_waiters s1 = []
         then (case put_continuation (length (puts s)) (sink_pos s) sz (s1\<lparr>sem_count := sem_count s1 - 1\<rparr>) of
                      (s2, given_back) \<Rightarrow>
                        if aborted s2 then s2
                        else if given_back then s2\<lparr>sem_count := Suc (sem_count s2)\<rparr> else s2)
         else s1\<lparr>sem_waiters := sem_waiters s1 @ [(length (puts s), sink_pos s, sz)]\<rparr>)"
      using assms(2) na by (simp add: Put step_def Let_def s1_def)
    show ?thesis
      unfolding st pc using a1 by simp
  next
    case (Complete k e)
    show ?thesis
    proof (cases "k < length (writes s) \<and> snd (writes s ! k) = None")
      case False
      with assms na show ?thesis by (auto simp: step_def Complete)
    next
      case True
      define s1 where "s1 = s\<lparr>writes := (writes s)[k := (fst (writes s ! k), Some e)]\<rparr>"
      have m: "map fst (writes s1) = map fst (writes s)"
      proof -
        have "(map fst (writes s))[k := map fst (writes s) ! k] = map fst (writes s)"
          by (rule list_update_id)
        with True show ?thesis by (simp add: s1_def map_update)
      qed
      have f1: "failed s1" "\<not> aborted s1" "write_behind s1 = write_behind s"
        using assms na by (simp_all add: s1_def)
      show ?thesis
      proof (cases mf)
        case True
        note r1 = run_merges_failed [OF f1(1)]
        from r1 f1 have "failed (run_merges s1)" "\<not> aborted (run_merges s1)" by simp_all
        note g = signal_failed [OF this, of "sem_waiters s1"]
        note r2 = run_merges_failed [of "signal (sem_waiters s1) (run_merges s1)"]
        have "step mf ev s = run_merges (signal (sem_waiters s1) (run_merges s1))"
          using \<open>k < length (writes s) \<and> snd (writes s ! k) = None\<close> na assms(2) True
          by (simp add: step_def Complete Let_def s1_def)
        with g r1 r2 m f1 show ?thesis by simp
      next
        case False
        note g = signal_failed [OF f1(1,2), of "sem_waiters s1"]
        note r2 = run_merges_failed [of "signal (sem_waiters s1) s1"]
        have "step mf ev s = run_merges (signal (sem_waiters s1) s1)"
          using \<open>k < length (writes s) \<and> snd (writes s ! k) = None\<close> na assms(2) False
          by (simp add: step_def Complete Let_def s1_def)
        with g r2 m f1 show ?thesis by simp
      qed
    qed
  qed
qed

lemma run_failed:
  "failed s \<Longrightarrow> write_behind s \<noteq> 0 \<Longrightarrow>
     failed (run mf evs s) \<and> map fst (writes (run mf evs s)) = map fst (writes s) \<and>
     write_behind (run mf evs s) = write_behind s"
proof (induction evs arbitrary: s)
  case Nil
  then show ?case by (simp add: run_def)
next
  case (Cons ev evs)
  from step_failed [OF Cons.prems, of mf ev]
  have s: "failed (step mf ev s)" "map fst (writes (step mf ev s)) = map fst (writes s)"
    "write_behind (step mf ev s) = write_behind s" by simp_all
  with Cons.prems(2) have "write_behind (step mf ev s) \<noteq> 0" by simp
  from Cons.IH [OF s(1) this] s show ?case by (simp add: run_def)
qed

lemma put_after_failure:
  assumes "failed s" and "write_behind s \<noteq> 0" and "\<not> aborted s"
    and "0 < sem_count s" and "sem_waiters s = []"
  shows "step mf (Put sz) s =
     s\<lparr>sink_pos := sink_pos s + sz,
       puts := puts s @ [Background_writes (background_writes_done s)],
       background_writes_done := \<lparr>resolved = Ready (), unmerged = []\<rparr>\<rparr>"
proof -
  define s1 where "s1 = s\<lparr>sink_pos := sink_pos s + sz, puts := puts s @ [Waiting_for_semaphore],
      sem_count := sem_count s - 1\<rparr>"
  have f1: "failed s1" using assms(1) by (simp add: s1_def)
  note pc = put_continuation_failed [OF f1, of "length (puts s)" "sink_pos s" sz]
  have "step mf (Put sz) s =
      (case put_continuation (length (puts s)) (sink_pos s) sz s1 of
         (s2, given_back) \<Rightarrow>
           if aborted s2 then s2
           else if given_back then s2\<lparr>sem_count := Suc (sem_count s2)\<rparr> else s2)"
    using assms by (simp add: step_def Let_def s1_def)
  also have "\<dots> = s\<lparr>sink_pos := sink_pos s + sz,
       puts := puts s @ [Background_writes (background_writes_done s)],
       background_writes_done := \<lparr>resolved = Ready (), unmerged = []\<rparr>\<rparr>"
    unfolding pc using assms by (simp add: s1_def)
  finally show ?thesis .
qed

lemma merge_Failed:
  "resolved (fst (merge ws (Failed e) ks fl)) = Failed e \<and> snd (merge ws (Failed e) ks fl) = fl"
  by (induction ks) (auto split: option.splits)

lemma merge_fst_flag: "fst (merge ws e1 ks fl) = fst (merge ws e1 ks fl')"
proof (induction ks arbitrary: e1 fl fl')
  case Nil
  show ?case by simp
next
  case (Cons k ks)
  show ?case
  proof (cases "if k < length ws then snd (ws ! k) else None")
    case None
    then show ?thesis by simp
  next
    case (Some e2)
    show ?thesis
    proof (cases e1)
      case (Failed e)
      with Some Cons.IH [of e1 fl fl'] show ?thesis by simp
    next
      case (Ready u)
      with Some Cons.IH [of e2 fl fl'] show ?thesis by (cases e2) simp_all
    qed
  qed
qed

lemma chain_okI:
  assumes "m \<le> length ws" and "unmerged c = [m..<length ws]"
    and "case resolved c of
           Ready u \<Rightarrow> (\<forall>j < m. snd (ws ! j) = Some (Ready ()))
         | Failed e \<Rightarrow> (\<exists>k < m. first_failed ws k e)"
  shows "chain_ok ws c"
  unfolding chain_ok_def using assms by blast

lemma merge_chain_ok:
  "chain_ok ws \<lparr>resolved = e1, unmerged = ks\<rparr> \<Longrightarrow>
     chain_ok ws (fst (merge ws e1 ks fl)) \<and>
     (snd (merge ws e1 ks fl) \<longleftrightarrow>
        fl \<or> (e1 = Ready () \<and> resolved (fst (merge ws e1 ks fl)) \<noteq> Ready ()))"
proof (induction ks arbitrary: e1 fl)
  case Nil
  then show ?case by simp
next
  case (Cons k ks)
  from Cons.prems obtain m where m: "m \<le> length ws" and u: "k # ks = [m..<length ws]"
    and r: "case e1 of Ready u \<Rightarrow> (\<forall>j < m. snd (ws ! j) = Some (Ready ()))
            | Failed e \<Rightarrow> (\<exists>k < m. first_failed ws k e)"
    unfolding chain_ok_def by auto
  from u [symmetric] have km: "k = m" "m < length ws" "ks = [Suc m..<length ws]"
    by (auto simp: upt_eq_Cons_conv)
  show ?case
  proof (cases "snd (ws ! m)")
    case None
    with km have "merge ws e1 (k # ks) fl = (\<lparr>resolved = e1, unmerged = k # ks\<rparr>, fl)" by simp
    with Cons.prems show ?thesis by auto
  next
    case (Some e2)
    show ?thesis
    proof (cases e1)
      case (Failed e)
      with r obtain k' where "k' < m" "first_failed ws k' e" by auto
      then have "\<exists>k < Suc m. first_failed ws k e" by (auto intro: less_SucI)
      then have "chain_ok ws \<lparr>resolved = e1, unmerged = ks\<rparr>"
        using km Failed by (intro chain_okI [of "Suc m"]) simp_all
      from Cons.IH [OF this, of fl] Some km Failed show ?thesis by simp
    next
      case (Ready u)
      with r have all: "\<forall>j < m. snd (ws ! j) = Some (Ready ())" by simp
      show ?thesis
      proof (cases e2)
        case (Failed e)
        have "first_failed ws m e"
          unfolding first_failed_def using km Some Failed all by simp
        then have "\<exists>k < Suc m. first_failed ws k e" by blast
        then have "chain_ok ws \<lparr>resolved = e2, unmerged = ks\<rparr>"
          using km Failed by (intro chain_okI [of "Suc m"]) simp_all
        from Cons.IH [OF this, of True] merge_Failed [of ws e ks True]
        show ?thesis using Some km Ready Failed by simp
      next
        case r2: (Ready u')
        have "\<forall>j < Suc m. snd (ws ! j) = Some (Ready ())"
          using all Some r2 by (auto simp: less_Suc_eq)
        then have "chain_ok ws \<lparr>resolved = e2, unmerged = ks\<rparr>"
          using km r2 by (intro chain_okI [of "Suc m"]) simp_all
        from Cons.IH [OF this, of fl] show ?thesis using Some km Ready r2 by simp
      qed
    qed
  qed
qed

lemma first_failed_append: "first_failed ws k e \<Longrightarrow> first_failed (ws @ [x]) k e"
  by (auto simp: first_failed_def nth_append)

lemma nth_update_finished:
  "snd (ws ! k) = None \<Longrightarrow> snd (ws ! j) = Some e \<Longrightarrow> ws[k := x] ! j = ws ! j"
  by (cases "k = j") simp_all

lemma first_failed_complete:
  "first_failed ws k' e' \<Longrightarrow> snd (ws ! k) = None \<Longrightarrow> first_failed (ws[k := x]) k' e'"
  by (simp add: first_failed_def nth_update_finished)

lemma chain_ok_append:
  assumes "chain_ok ws c"
  shows "chain_ok (ws @ [x]) (c\<lparr>unmerged := unmerged c @ [length ws]\<rparr>)"
proof -
  from assms obtain m where m: "m \<le> length ws" and u: "unmerged c = [m..<length ws]"
    and r: "case resolved c of Ready u \<Rightarrow> (\<forall>j < m. snd (ws ! j) = Some (Ready ()))
            | Failed e \<Rightarrow> (\<exists>k < m. first_failed ws k e)"
    unfolding chain_ok_def by auto
  have "unmerged c @ [length ws] = [m..<length (ws @ [x])]" using m u by simp
  moreover have "case resolved c of Ready u \<Rightarrow> (\<forall>j < m. snd ((ws @ [x]) ! j) = Some (Ready ()))
            | Failed e \<Rightarrow> (\<exists>k < m. first_failed (ws @ [x]) k e)"
    using r m by (cases "resolved c") (auto simp: nth_append intro: first_failed_append)
  ultimately show ?thesis
    using m by (intro chain_okI [of m]) simp_all
qed

lemma chain_ok_complete:
  assumes "chain_ok ws c" and "snd (ws ! k) = None"
  shows "chain_ok (ws[k := x]) c"
proof -
  from assms obtain m where m: "m \<le> length ws" and u: "unmerged c = [m..<length ws]"
    and r: "case resolved c of Ready u \<Rightarrow> (\<forall>j < m. snd (ws ! j) = Some (Ready ()))
            | Failed e \<Rightarrow> (\<exists>k < m. first_failed ws k e)"
    unfolding chain_ok_def by auto
  have "case resolved c of Ready u \<Rightarrow> (\<forall>j < m. snd (ws[k := x] ! j) = Some (Ready ()))
            | Failed e \<Rightarrow> (\<exists>k' < m. first_failed (ws[k := x]) k' e)"
    using r assms(2) by (cases "resolved c") (auto simp: nth_update_finished intro: first_failed_complete)
  then show ?thesis
    using m u by (intro chain_okI [of m]) simp_all
qed

lemma accumulated_append: "accumulated (xs @ ys) = accumulated xs @ accumulated ys"
  by (induction xs rule: accumulated.induct) simp_all

lemma accumulated_Nil_iff: "accumulated rs = [] \<longleftrightarrow> (\<forall>r \<in> set rs. \<not> is_accumulated r)"
  by (induction rs rule: accumulated.induct) simp_all

lemma accumulated_update_last:
  assumes "n < length rs" and "\<forall>i < length rs. is_accumulated (rs ! i) \<longrightarrow> i < n"
  shows "accumulated (rs[n := Background_writes c]) = accumulated rs @ [c]"
proof -
  have "\<forall>r \<in> set (drop (Suc n) rs). \<not> is_accumulated r"
  proof
    fix r assume "r \<in> set (drop (Suc n) rs)"
    then obtain i where "i < length (drop (Suc n) rs)" "r = drop (Suc n) rs ! i"
      by (auto simp: in_set_conv_nth)
    then have "r = rs ! (Suc n + i)" "Suc n + i < length rs" by auto
    with assms(2) show "\<not> is_accumulated r" by fastforce
  qed
  then have d: "accumulated (drop (Suc n) rs) = []" by (simp add: accumulated_Nil_iff)
  from assms have "\<not> is_accumulated (rs ! n)" by auto
  then have x: "accumulated (rs ! n # drop (Suc n) rs) = accumulated (drop (Suc n) rs)"
    by (cases "rs ! n") simp_all
  have "rs = take n rs @ rs ! n # drop (Suc n) rs" using assms(1) by (rule id_take_nth_drop)
  then have "accumulated rs = accumulated (take n rs @ rs ! n # drop (Suc n) rs)" by simp
  then have a: "accumulated rs = accumulated (take n rs)"
    by (simp only: accumulated_append x d append_Nil2)
  have "rs[n := Background_writes c] = take n rs @ Background_writes c # drop (Suc n) rs"
    using assms(1) by (rule upd_conv_take_nth_drop)
  then have "accumulated (rs[n := Background_writes c]) =
      accumulated (take n rs) @ accumulated (Background_writes c # drop (Suc n) rs)"
    by (simp add: accumulated_append)
  with a d show ?thesis by simp
qed

lemma accumulated_update_plain:
  assumes "accumulated rs = []" and "\<not> is_accumulated x"
  shows "accumulated (rs[n := x]) = []"
  using assms unfolding accumulated_Nil_iff by (auto dest: set_update_subset_insert [THEN subsetD])

lemma merge_returned_plain: "accumulated rs = [] \<Longrightarrow> merge_returned rs s = (rs, failed s)"
proof (induction rs)
  case Nil
  show ?case by simp
next
  case (Cons r rs)
  from Cons.prems have "\<not> is_accumulated r" and "accumulated rs = []"
    by (simp_all add: accumulated_Nil_iff)
  with Cons.IH show ?case by (cases r) simp_all
qed

lemma merge_returned_shape:
  "map is_accumulated (fst (merge_returned rs s)) = map is_accumulated rs \<and>
   accumulated (fst (merge_returned rs s)) =
     map (\<lambda>c. fst (merge (writes s) (resolved c) (unmerged c) False)) (accumulated rs)"
proof (induction rs arbitrary: s)
  case Nil
  show ?case by simp
next
  case (Cons r rs)
  show ?case
  proof (cases r)
    case (Background_writes c)
    obtain c' fl where m: "merge_chain c s = (c', fl)" by (cases "merge_chain c s")
    obtain rs' fl' where mr: "merge_returned rs (s\<lparr>failed := fl\<rparr>) = (rs', fl')"
      by (cases "merge_returned rs (s\<lparr>failed := fl\<rparr>)")
    from m have c': "c' = fst (merge (writes s) (resolved c) (unmerged c) False)"
      using merge_fst_flag [of "writes s" "resolved c" "unmerged c" "failed s" False]
      by (simp add: merge_chain_def)
    from Cons.IH [of "s\<lparr>failed := fl\<rparr>"] mr
    have "map is_accumulated rs' = map is_accumulated rs"
      and "accumulated rs' =
        map (\<lambda>c. fst (merge (writes s) (resolved c) (unmerged c) False)) (accumulated rs)"
      by simp_all
    with Background_writes m mr c' show ?thesis by simp
  next
    case Waiting_for_semaphore
    with Cons.IH [of s] show ?thesis by (cases "merge_returned rs s") simp
  next
    case Ready_future
    with Cons.IH [of s] show ?thesis by (cases "merge_returned rs s") simp
  next
    case (Write_future k)
    with Cons.IH [of s] show ?thesis by (cases "merge_returned rs s") simp
  qed
qed

lemma run_merges_frame:
  "writes (run_merges s) = writes s" "write_behind (run_merges s) = write_behind s"
  "aborted (run_merges s) = aborted s" "sem_waiters (run_merges s) = sem_waiters s"
  by (simp_all add: run_merges_def split: prod.splits)

lemma sink_inv_cong:
  assumes "puts s' = puts s" and "writes s' = writes s"
    and "background_writes_done s' = background_writes_done s" and "failed s' = failed s"
  shows "sink_inv ws s' = sink_inv ws s"
  unfolding sink_inv_def assms ..

lemma run_merges_inv:
  assumes "sink_inv ws s"
  shows "sink_inv ws (run_merges s)"
proof -
  obtain c fl where m: "merge_chain (background_writes_done s) s = (c, fl)"
    by (cases "merge_chain (background_writes_done s) s")
  obtain rs fl' where mr: "merge_returned (puts s) (s\<lparr>failed := fl\<rparr>) = (rs, fl')"
    by (cases "merge_returned (puts s) (s\<lparr>failed := fl\<rparr>)")
  have rm: "puts (run_merges s) = rs" "background_writes_done (run_merges s) = c"
    "failed (run_merges s) = fl'" "writes (run_merges s) = writes s"
    using m mr by (simp_all add: run_merges_def)
  from merge_returned_shape [of "puts s" "s\<lparr>failed := fl\<rparr>"] mr
  have sh: "map is_accumulated rs = map is_accumulated (puts s)"
    and ac: "accumulated rs =
      map (\<lambda>c. fst (merge (writes s) (resolved c) (unmerged c) False)) (accumulated (puts s))"
    by simp_all
  from sh have len: "length rs = length (puts s)" by (rule map_eq_imp_length_eq)
  have nth: "is_accumulated (rs ! i) = is_accumulated (puts s ! i)" if "i < length (puts s)" for i
  proof -
    from that len have "map is_accumulated rs ! i = is_accumulated (rs ! i)"
      "map is_accumulated (puts s) ! i = is_accumulated (puts s ! i)" by simp_all
    with sh show ?thesis by simp
  qed
  from assms have i1: "sorted_wrt (<) (map fst ws)" "\<forall>w \<in> set ws. fst w < length (puts s)"
    and i2: "\<forall>i < length (puts s). is_accumulated (puts s ! i) \<longrightarrow> (\<forall>w \<in> set ws. i < fst w)"
    and i3: "accumulated (puts s) = [] \<longrightarrow>
        chain_ok (writes s) (background_writes_done s) \<and>
        (failed s \<longleftrightarrow> resolved (background_writes_done s) \<noteq> Ready ())"
    and i4: "accumulated (puts s) \<noteq> [] \<longrightarrow>
        failed s \<and> background_writes_done s = \<lparr>resolved = Ready (), unmerged = []\<rparr> \<and>
        (\<exists>c cs k e. accumulated (puts s) = c # cs \<and> resolved c = Failed e \<and>
            first_failed (writes s) k e \<and>
            (\<forall>c' \<in> set cs. c' = \<lparr>resolved = Ready (), unmerged = []\<rparr>))"
    unfolding sink_inv_def by blast+
  have j3: "chain_ok (writes s) c \<and> (fl' \<longleftrightarrow> resolved c \<noteq> Ready ())"
    if e: "accumulated (puts s) = []"
  proof -
    from e i3 have ok: "chain_ok (writes s) (background_writes_done s)"
      and f: "failed s \<longleftrightarrow> resolved (background_writes_done s) \<noteq> Ready ()" by simp_all
    from ok have "chain_ok (writes s) \<lparr>resolved = resolved (background_writes_done s),
        unmerged = unmerged (background_writes_done s)\<rparr>"
      by (simp add: chain_ok_def)
    from merge_chain_ok [OF this, of "failed s"] m
    have c: "chain_ok (writes s) c"
      and fl: "fl \<longleftrightarrow> failed s \<or>
          (resolved (background_writes_done s) = Ready () \<and> resolved c \<noteq> Ready ())"
      by (simp_all add: merge_chain_def)
    from e mr have "fl' = fl" by (simp add: merge_returned_plain)
    moreover have "fl \<longleftrightarrow> resolved c \<noteq> Ready ()"
    proof (cases "failed s")
      case True
      with f obtain e' where "resolved (background_writes_done s) = Failed e'"
        by (cases "resolved (background_writes_done s)") simp_all
      with merge_Failed [of "writes s" e' "unmerged (background_writes_done s)" "failed s"] m
      have "resolved c = Failed e'" by (simp add: merge_chain_def)
      with True fl show ?thesis by simp
    next
      case False
      with f fl show ?thesis by simp
    qed
    ultimately show ?thesis using c by simp
  qed
  have j4: "fl' \<and> c = \<lparr>resolved = Ready (), unmerged = []\<rparr> \<and>
        (\<exists>c cs k e. accumulated rs = c # cs \<and> resolved c = Failed e \<and>
            first_failed (writes s) k e \<and>
            (\<forall>c' \<in> set cs. c' = \<lparr>resolved = Ready (), unmerged = []\<rparr>))"
    if ne: "accumulated (puts s) \<noteq> []"
  proof -
    from ne i4 obtain c0 cs k e where f: "failed s"
      and b: "background_writes_done s = \<lparr>resolved = Ready (), unmerged = []\<rparr>"
      and a: "accumulated (puts s) = c0 # cs" and r: "resolved c0 = Failed e"
      and ff: "first_failed (writes s) k e"
      and cs: "\<forall>c' \<in> set cs. c' = \<lparr>resolved = Ready (), unmerged = []\<rparr>"
      by blast
    from m b f have c: "c = \<lparr>resolved = Ready (), unmerged = []\<rparr>" and fl: fl
      by (simp_all add: merge_chain_def)
    from fl have "snd (merge_returned (puts s) (s\<lparr>failed := fl\<rparr>))"
      by (intro merge_returned_flag) simp
    with mr have fl': fl' by simp
    define f' where "f' = (\<lambda>c :: chain. fst (merge (writes s) (resolved c) (unmerged c) False))"
    have "resolved (f' c0) = Failed e"
      unfolding f'_def r using merge_Failed [of "writes s" e "unmerged c0" False] by simp
    moreover have "\<forall>c' \<in> set (map f' cs). c' = \<lparr>resolved = Ready (), unmerged = []\<rparr>"
      using cs by (auto simp: f'_def)
    moreover have "accumulated rs = f' c0 # map f' cs"
      using ac a by (simp add: f'_def)
    ultimately show ?thesis using fl' c ff by blast
  qed
  have "sorted_wrt (<) (map fst ws) \<and>
     (\<forall>w \<in> set ws. fst w < length rs) \<and>
     (\<forall>i < length rs. is_accumulated (rs ! i) \<longrightarrow> (\<forall>w \<in> set ws. i < fst w)) \<and>
     (accumulated rs = [] \<longrightarrow> chain_ok (writes s) c \<and> (fl' \<longleftrightarrow> resolved c \<noteq> Ready ())) \<and>
     (accumulated rs \<noteq> [] \<longrightarrow>
        fl' \<and> c = \<lparr>resolved = Ready (), unmerged = []\<rparr> \<and>
        (\<exists>c cs k e. accumulated rs = c # cs \<and> resolved c = Failed e \<and>
            first_failed (writes s) k e \<and>
            (\<forall>c' \<in> set cs. c' = \<lparr>resolved = Ready (), unmerged = []\<rparr>)))"
  proof (intro conjI impI)
    show "sorted_wrt (<) (map fst ws)" by (rule i1(1))
    show "\<forall>w \<in> set ws. fst w < length rs" using i1(2) len by simp
    show "\<forall>i < length rs. is_accumulated (rs ! i) \<longrightarrow> (\<forall>w \<in> set ws. i < fst w)"
      using i2 nth len by simp
  next
    assume "accumulated rs = []"
    with ac have e: "accumulated (puts s) = []" by simp
    from j3 [OF e] show "chain_ok (writes s) c" and "fl' \<longleftrightarrow> resolved c \<noteq> Ready ()" by simp_all
  next
    assume "accumulated rs \<noteq> []"
    with ac have ne: "accumulated (puts s) \<noteq> []" by auto
    from j4 [OF ne] show fl' and "c = \<lparr>resolved = Ready (), unmerged = []\<rparr>"
      and "\<exists>c cs k e. accumulated rs = c # cs \<and> resolved c = Failed e \<and>
            first_failed (writes s) k e \<and>
            (\<forall>c' \<in> set cs. c' = \<lparr>resolved = Ready (), unmerged = []\<rparr>)"
      by blast+
  qed
  then show ?thesis unfolding sink_inv_def rm .
qed

lemma put_continuation_frame:
  "write_behind (fst (put_continuation n p sz s)) = write_behind s"
  "sem_waiters (fst (put_continuation n p sz s)) = sem_waiters s"
  by (simp_all add: put_continuation_def do_put_def Let_def)

lemma put_continuation_inv:
  assumes inv: "sink_inv ((n, p, sz) # ws) s"
    and na: "\<not> aborted (fst (put_continuation n p sz s))"
  shows "sink_inv ws (fst (put_continuation n p sz s))"
proof -
  from inv have s: "sorted_wrt (<) (map fst ws)" and gt: "\<forall>w \<in> set ws. n < fst w"
    and lt: "\<forall>w \<in> set ws. fst w < length (puts s)" and n: "n < length (puts s)"
    and i2: "\<forall>i < length (puts s). is_accumulated (puts s ! i) \<longrightarrow>
               i < n \<and> (\<forall>w \<in> set ws. i < fst w)"
    and i3: "accumulated (puts s) = [] \<longrightarrow>
        chain_ok (writes s) (background_writes_done s) \<and>
        (failed s \<longleftrightarrow> resolved (background_writes_done s) \<noteq> Ready ())"
    and i4: "accumulated (puts s) \<noteq> [] \<longrightarrow>
        failed s \<and> background_writes_done s = \<lparr>resolved = Ready (), unmerged = []\<rparr> \<and>
        (\<exists>c cs k e. accumulated (puts s) = c # cs \<and> resolved c = Failed e \<and>
            first_failed (writes s) k e \<and>
            (\<forall>c' \<in> set cs. c' = \<lparr>resolved = Ready (), unmerged = []\<rparr>))"
    unfolding sink_inv_def by auto
  show ?thesis
  proof (cases "failed s")
    case True
    define s' where "s' = s\<lparr>puts := (puts s)[n := Background_writes (background_writes_done s)],
          background_writes_done := \<lparr>resolved = Ready (), unmerged = []\<rparr>\<rparr>"
    have pc: "fst (put_continuation n p sz s) = s'"
      using True by (simp add: put_continuation_def s'_def)
    have ac: "accumulated (puts s') = accumulated (puts s) @ [background_writes_done s]"
      unfolding s'_def using n i2 by (simp add: accumulated_update_last)
    have j2: "\<forall>i < length (puts s'). is_accumulated (puts s' ! i) \<longrightarrow> (\<forall>w \<in> set ws. i < fst w)"
    proof (intro allI impI)
      fix i assume i: "i < length (puts s')" and a: "is_accumulated (puts s' ! i)"
      show "\<forall>w \<in> set ws. i < fst w"
      proof (cases "i = n")
        case True
        with gt show ?thesis by simp
      next
        case False
        with i a have "i < length (puts s)" "is_accumulated (puts s ! i)"
          by (simp_all add: s'_def)
        with i2 show ?thesis by blast
      qed
    qed
    have j4: "\<exists>c cs k e. accumulated (puts s') = c # cs \<and> resolved c = Failed e \<and>
            first_failed (writes s') k e \<and>
            (\<forall>c' \<in> set cs. c' = \<lparr>resolved = Ready (), unmerged = []\<rparr>)"
    proof (cases "accumulated (puts s) = []")
      case e: True
      with i3 True have ok: "chain_ok (writes s) (background_writes_done s)"
        and "resolved (background_writes_done s) \<noteq> Ready ()" by simp_all
      then obtain e' where r: "resolved (background_writes_done s) = Failed e'"
        by (cases "resolved (background_writes_done s)") simp_all
      with ok obtain k where "first_failed (writes s) k e'"
        unfolding chain_ok_def by auto
      then have "first_failed (writes s') k e'" by (simp add: s'_def)
      moreover have "accumulated (puts s') = background_writes_done s # []"
        using ac e by simp
      ultimately show ?thesis using r
        by (intro exI [of _ "background_writes_done s"] exI [of _ "[]"] exI [of _ k]
              exI [of _ e']) simp
    next
      case False
      with i4 obtain c cs k e where b: "background_writes_done s = \<lparr>resolved = Ready (), unmerged = []\<rparr>"
        and a: "accumulated (puts s) = c # cs" and r: "resolved c = Failed e"
        and ff: "first_failed (writes s) k e"
        and cs: "\<forall>c' \<in> set cs. c' = \<lparr>resolved = Ready (), unmerged = []\<rparr>"
        by blast
      have "accumulated (puts s') = c # (cs @ [\<lparr>resolved = Ready (), unmerged = []\<rparr>])"
        using ac a b by simp
      moreover have "\<forall>c' \<in> set (cs @ [\<lparr>resolved = Ready (), unmerged = []\<rparr>]).
          c' = \<lparr>resolved = Ready (), unmerged = []\<rparr>"
        using cs by simp
      moreover have "first_failed (writes s') k e" using ff by (simp add: s'_def)
      ultimately show ?thesis using r
        by (intro exI [of _ c] exI [of _ "cs @ [\<lparr>resolved = Ready (), unmerged = []\<rparr>]"]
              exI [of _ k] exI [of _ e]) simp
    qed
    have "sorted_wrt (<) (map fst ws) \<and>
      (\<forall>w \<in> set ws. fst w < length (puts s')) \<and>
      (\<forall>i < length (puts s'). is_accumulated (puts s' ! i) \<longrightarrow> (\<forall>w \<in> set ws. i < fst w)) \<and>
      (accumulated (puts s') = [] \<longrightarrow>
         chain_ok (writes s') (background_writes_done s') \<and>
         (failed s' \<longleftrightarrow> resolved (background_writes_done s') \<noteq> Ready ())) \<and>
      (accumulated (puts s') \<noteq> [] \<longrightarrow>
         failed s' \<and> background_writes_done s' = \<lparr>resolved = Ready (), unmerged = []\<rparr> \<and>
         (\<exists>c cs k e. accumulated (puts s') = c # cs \<and> resolved c = Failed e \<and>
            first_failed (writes s') k e \<and>
            (\<forall>c' \<in> set cs. c' = \<lparr>resolved = Ready (), unmerged = []\<rparr>)))"
    proof (intro conjI impI)
      show "sorted_wrt (<) (map fst ws)" by (rule s)
      show "\<forall>w \<in> set ws. fst w < length (puts s')" using lt by (simp add: s'_def)
      show "\<forall>i < length (puts s'). is_accumulated (puts s' ! i) \<longrightarrow> (\<forall>w \<in> set ws. i < fst w)"
        by (rule j2)
    next
      assume "accumulated (puts s') = []"
      with ac show "chain_ok (writes s') (background_writes_done s')"
        and "failed s' \<longleftrightarrow> resolved (background_writes_done s') \<noteq> Ready ()" by simp_all
    next
      assume "accumulated (puts s') \<noteq> []"
      show "failed s'" using True by (simp add: s'_def)
      show "background_writes_done s' = \<lparr>resolved = Ready (), unmerged = []\<rparr>"
        by (simp add: s'_def)
      show "\<exists>c cs k e. accumulated (puts s') = c # cs \<and> resolved c = Failed e \<and>
            first_failed (writes s') k e \<and>
            (\<forall>c' \<in> set cs. c' = \<lparr>resolved = Ready (), unmerged = []\<rparr>)"
        by (rule j4)
    qed
    then show ?thesis unfolding pc sink_inv_def .
  next
    case False
    with i4 have e: "accumulated (puts s) = []" by blast
    with i3 False have ok: "chain_ok (writes s) (background_writes_done s)"
      and r: "resolved (background_writes_done s) = Ready ()" by simp_all
    have nab: "\<not> aborted (do_put p sz s)"
      using na False by (auto simp: put_continuation_def Let_def split: if_splits)
    then obtain x where dp: "do_put p sz s = s\<lparr>writes := writes s @ [(x, None)]\<rparr>"
      by (auto simp: do_put_def Let_def split: if_splits)
    define s' where "s' = s\<lparr>writes := writes s @ [(x, None)],
        background_writes_done := (background_writes_done s)
           \<lparr>unmerged := unmerged (background_writes_done s) @ [length (writes s)]\<rparr>,
        puts := (puts s)[n := Ready_future]\<rparr>"
    have pc: "fst (put_continuation n p sz s) = s'"
      using False nab dp by (simp add: put_continuation_def Let_def s'_def)
    have ac: "accumulated (puts s') = []"
      unfolding s'_def using e by (simp add: accumulated_update_plain)
    then have none: "\<forall>i < length (puts s'). \<not> is_accumulated (puts s' ! i)"
      by (simp add: accumulated_Nil_iff)
    have ok': "chain_ok (writes s') (background_writes_done s')"
      unfolding s'_def using chain_ok_append [OF ok, of "(x, None)"] by simp
    have "sorted_wrt (<) (map fst ws) \<and>
      (\<forall>w \<in> set ws. fst w < length (puts s')) \<and>
      (\<forall>i < length (puts s'). is_accumulated (puts s' ! i) \<longrightarrow> (\<forall>w \<in> set ws. i < fst w)) \<and>
      (accumulated (puts s') = [] \<longrightarrow>
         chain_ok (writes s') (background_writes_done s') \<and>
         (failed s' \<longleftrightarrow> resolved (background_writes_done s') \<noteq> Ready ())) \<and>
      (accumulated (puts s') \<noteq> [] \<longrightarrow>
         failed s' \<and> background_writes_done s' = \<lparr>resolved = Ready (), unmerged = []\<rparr> \<and>
         (\<exists>c cs k e. accumulated (puts s') = c # cs \<and> resolved c = Failed e \<and>
            first_failed (writes s') k e \<and>
            (\<forall>c' \<in> set cs. c' = \<lparr>resolved = Ready (), unmerged = []\<rparr>)))"
    proof (intro conjI impI)
      show "sorted_wrt (<) (map fst ws)" by (rule s)
      show "\<forall>w \<in> set ws. fst w < length (puts s')" using lt by (simp add: s'_def)
      show "\<forall>i < length (puts s'). is_accumulated (puts s' ! i) \<longrightarrow> (\<forall>w \<in> set ws. i < fst w)"
        using none by blast
      show "chain_ok (writes s') (background_writes_done s')" by (rule ok')
      show "failed s' \<longleftrightarrow> resolved (background_writes_done s') \<noteq> Ready ()"
        using False r by (simp add: s'_def)
    next
      assume "accumulated (puts s') \<noteq> []"
      with ac show "failed s'" and "background_writes_done s' = \<lparr>resolved = Ready (), unmerged = []\<rparr>"
        and "\<exists>c cs k e. accumulated (puts s') = c # cs \<and> resolved c = Failed e \<and>
            first_failed (writes s') k e \<and>
            (\<forall>c' \<in> set cs. c' = \<lparr>resolved = Ready (), unmerged = []\<rparr>)"
        by simp_all
    qed
    then show ?thesis unfolding pc sink_inv_def .
  qed
qed

lemma signal_frame: "write_behind (signal ws s) = write_behind s"
proof (induction ws arbitrary: s)
  case Nil
  show ?case by simp
next
  case (Cons w ws)
  obtain n p sz where w: "w = (n, p, sz)" by (cases w)
  obtain s' gb where pc: "put_continuation n p sz s = (s', gb)"
    by (cases "put_continuation n p sz s")
  from put_continuation_frame(1) [of n p sz s] pc have "write_behind s' = write_behind s" by simp
  with Cons.IH [of s'] pc show ?case by (simp add: w)
qed

lemma signal_inv:
  "sink_inv ws s \<Longrightarrow> \<not> aborted (signal ws s) \<Longrightarrow>
     sink_inv (sem_waiters (signal ws s)) (signal ws s)"
proof (induction ws arbitrary: s)
  case Nil
  have "sink_inv [] (s\<lparr>sem_waiters := [], sem_count := Suc (sem_count s)\<rparr>) = sink_inv [] s"
    by (rule sink_inv_cong) simp_all
  with Nil.prems(1) show ?case by simp
next
  case (Cons w ws)
  obtain n p sz where w: "w = (n, p, sz)" by (cases w)
  obtain s' gb where pc: "put_continuation n p sz s = (s', gb)"
    by (cases "put_continuation n p sz s")
  have sg: "signal (w # ws) s =
      (if aborted s' then s' else if gb then signal ws s' else s'\<lparr>sem_waiters := ws\<rparr>)"
    using pc by (simp add: w)
  from Cons.prems(2) sg have na: "\<not> aborted s'" by (auto split: if_splits)
  from put_continuation_inv [of n p sz ws s] Cons.prems(1) na pc
  have inv': "sink_inv ws s'" by (simp add: w)
  show ?case
  proof (cases gb)
    case True
    with sg na have eq: "signal (w # ws) s = signal ws s'" by simp
    with Cons.prems(2) have "\<not> aborted (signal ws s')" by simp
    from Cons.IH [OF inv' this] show ?thesis unfolding eq .
  next
    case False
    with sg na have eq: "signal (w # ws) s = s'\<lparr>sem_waiters := ws\<rparr>" by simp
    have "sink_inv ws (s'\<lparr>sem_waiters := ws\<rparr>) = sink_inv ws s'"
      by (rule sink_inv_cong) simp_all
    with inv' show ?thesis unfolding eq by simp
  qed
qed

lemma put_continuation_given_back_frame:
  "write_behind (case put_continuation n p sz s of
       (s2, given_back) \<Rightarrow>
         if aborted s2 then s2
         else if given_back then s2\<lparr>sem_count := Suc (sem_count s2)\<rparr> else s2) = write_behind s"
  using put_continuation_frame(1) [of n p sz s]
  by (cases "put_continuation n p sz s") auto

lemma step_write_behind: "write_behind (step mf ev s) = write_behind s"
proof (cases ev)
  case (Put sz)
  show ?thesis
    unfolding step_def Put
    by (simp add: Let_def do_put_def put_continuation_given_back_frame)
next
  case (Complete k e)
  show ?thesis
    unfolding step_def Complete
    by (simp add: Let_def run_merges_frame signal_frame)
qed

lemma step_Put_wait:
  assumes "\<not> aborted s" and "write_behind s \<noteq> 0" and "\<not> (0 < sem_count s \<and> sem_waiters s = [])"
  shows "step mf (Put sz) s =
     s\<lparr>sink_pos := sink_pos s + sz, puts := puts s @ [Waiting_for_semaphore],
       sem_waiters := sem_waiters s @ [(length (puts s), sink_pos s, sz)]\<rparr>"
  using assms by (auto simp: step_def Let_def)

lemma sink_inv_init: "sink_inv [] (file_data_sink_impl alignment behind)"
  unfolding sink_inv_def file_data_sink_impl_def
  by (simp add: chain_ok_def)

lemma sink_inv_new_put:
  assumes "sink_inv ws s"
  shows "sink_inv (ws @ [(length (puts s), p, sz)]) (s\<lparr>puts := puts s @ [Waiting_for_semaphore]\<rparr>)"
proof -
  from assms have i1: "sorted_wrt (<) (map fst ws)" "\<forall>w \<in> set ws. fst w < length (puts s)"
    and i2: "\<forall>i < length (puts s). is_accumulated (puts s ! i) \<longrightarrow> (\<forall>w \<in> set ws. i < fst w)"
    and i3: "accumulated (puts s) = [] \<longrightarrow>
        chain_ok (writes s) (background_writes_done s) \<and>
        (failed s \<longleftrightarrow> resolved (background_writes_done s) \<noteq> Ready ())"
    and i4: "accumulated (puts s) \<noteq> [] \<longrightarrow>
        failed s \<and> background_writes_done s = \<lparr>resolved = Ready (), unmerged = []\<rparr> \<and>
        (\<exists>c cs k e. accumulated (puts s) = c # cs \<and> resolved c = Failed e \<and>
            first_failed (writes s) k e \<and>
            (\<forall>c' \<in> set cs. c' = \<lparr>resolved = Ready (), unmerged = []\<rparr>))"
    unfolding sink_inv_def by blast+
  have ac: "accumulated (puts s @ [Waiting_for_semaphore]) = accumulated (puts s)"
    by (simp add: accumulated_append)
  have j1: "sorted_wrt (<) (map fst (ws @ [(length (puts s), p, sz)]))"
    using i1 by (simp add: sorted_wrt_append)
  have j2: "\<forall>i < length (puts s @ [Waiting_for_semaphore]).
      is_accumulated ((puts s @ [Waiting_for_semaphore]) ! i) \<longrightarrow>
      (\<forall>w \<in> set (ws @ [(length (puts s), p, sz)]). i < fst w)"
  proof (intro allI impI)
    fix i
    assume "i < length (puts s @ [Waiting_for_semaphore])"
      and a: "is_accumulated ((puts s @ [Waiting_for_semaphore]) ! i)"
    then have i: "i < length (puts s)" by (cases "i = length (puts s)") simp_all
    with a have "is_accumulated (puts s ! i)" by (simp add: nth_append)
    with i i2 show "\<forall>w \<in> set (ws @ [(length (puts s), p, sz)]). i < fst w" by auto
  qed
  show ?thesis
    unfolding sink_inv_def using j1 j2 i1(2) i3 i4 by (simp add: ac less_SucI)
qed

lemma sink_inv_complete:
  assumes "sink_inv ws s" and "snd (writes s ! k) = None"
  shows "sink_inv ws (s\<lparr>writes := (writes s)[k := x]\<rparr>)"
proof -
  from assms(1) have i1: "sorted_wrt (<) (map fst ws)" "\<forall>w \<in> set ws. fst w < length (puts s)"
    and i2: "\<forall>i < length (puts s). is_accumulated (puts s ! i) \<longrightarrow> (\<forall>w \<in> set ws. i < fst w)"
    and i3: "accumulated (puts s) = [] \<longrightarrow>
        chain_ok (writes s) (background_writes_done s) \<and>
        (failed s \<longleftrightarrow> resolved (background_writes_done s) \<noteq> Ready ())"
    and i4: "accumulated (puts s) \<noteq> [] \<longrightarrow>
        failed s \<and> background_writes_done s = \<lparr>resolved = Ready (), unmerged = []\<rparr> \<and>
        (\<exists>c cs k e. accumulated (puts s) = c # cs \<and> resolved c = Failed e \<and>
            first_failed (writes s) k e \<and>
            (\<forall>c' \<in> set cs. c' = \<lparr>resolved = Ready (), unmerged = []\<rparr>))"
    unfolding sink_inv_def by blast+
  have j3: "chain_ok ((writes s)[k := x]) (background_writes_done s)"
    if "accumulated (puts s) = []"
    using that i3 assms(2) by (simp add: chain_ok_complete)
  have j4: "\<exists>c cs k' e. accumulated (puts s) = c # cs \<and> resolved c = Failed e \<and>
            first_failed ((writes s)[k := x]) k' e \<and>
            (\<forall>c' \<in> set cs. c' = \<lparr>resolved = Ready (), unmerged = []\<rparr>)"
    if "accumulated (puts s) \<noteq> []"
  proof -
    from that i4 obtain c cs k' e where "accumulated (puts s) = c # cs" "resolved c = Failed e"
      "first_failed (writes s) k' e" "\<forall>c' \<in> set cs. c' = \<lparr>resolved = Ready (), unmerged = []\<rparr>"
      by blast
    with first_failed_complete [OF this(3) assms(2), of x] show ?thesis
      by (intro exI [of _ c] exI [of _ cs] exI [of _ k'] exI [of _ e]) simp
  qed
  show ?thesis
    unfolding sink_inv_def using i1 i2 i3 i4 j3 j4 by simp
qed

lemma step_inv:
  assumes inv: "\<not> aborted s \<longrightarrow> sink_inv (sem_waiters s) s" and wb: "write_behind s \<noteq> 0"
  shows "\<not> aborted (step mf ev s) \<longrightarrow> sink_inv (sem_waiters (step mf ev s)) (step mf ev s)"
proof (cases "aborted s")
  case True
  then show ?thesis by (simp add: step_def)
next
  case na: False
  with inv have inv: "sink_inv (sem_waiters s) s" by simp
  show ?thesis
  proof (cases ev)
    case (Put sz)
    define n where "n = length (puts s)"
    define s1 where "s1 = s\<lparr>sink_pos := sink_pos s + sz, puts := puts s @ [Waiting_for_semaphore]\<rparr>"
    have i1: "sink_inv (sem_waiters s @ [(n, sink_pos s, sz)]) s1"
    proof -
      have "sink_inv (sem_waiters s @ [(n, sink_pos s, sz)]) s1 =
          sink_inv (sem_waiters s @ [(n, sink_pos s, sz)]) (s\<lparr>puts := puts s @ [Waiting_for_semaphore]\<rparr>)"
        by (rule sink_inv_cong) (simp_all add: s1_def)
      with sink_inv_new_put [OF inv, of "sink_pos s" sz] show ?thesis by (simp add: n_def)
    qed
    show ?thesis
    proof (cases "0 < sem_count s1 \<and> sem_waiters s1 = []")
      case True
      define s1' where "s1' = s1\<lparr>sem_count := sem_count s1 - 1\<rparr>"
      obtain s2 gb where pc: "put_continuation n (sink_pos s) sz s1' = (s2, gb)"
        by (cases "put_continuation n (sink_pos s) sz s1'")
      have st: "step mf ev s =
          (if aborted s2 then s2 else if gb then s2\<lparr>sem_count := Suc (sem_count s2)\<rparr> else s2)"
        using na wb True pc by (simp add: step_def Put Let_def s1_def s1'_def n_def)
      have w: "sem_waiters s2 = []"
        using put_continuation_frame(2) [of n "sink_pos s" sz s1'] pc True by (simp add: s1'_def)
      have "sem_waiters s = []" using True by (simp add: s1_def)
      with i1 have "sink_inv [(n, sink_pos s, sz)] s1" by simp
      moreover have "sink_inv [(n, sink_pos s, sz)] s1' = sink_inv [(n, sink_pos s, sz)] s1"
        by (rule sink_inv_cong) (simp_all add: s1'_def)
      ultimately have i: "sink_inv ((n, sink_pos s, sz) # []) s1'" by simp
      show ?thesis
      proof (cases "aborted s2")
        case True
        with st show ?thesis by simp
      next
        case False
        with put_continuation_inv [OF i] pc have i2: "sink_inv [] s2" by simp
        have "sink_inv [] (s2\<lparr>sem_count := Suc (sem_count s2)\<rparr>) = sink_inv [] s2"
          by (rule sink_inv_cong) simp_all
        with i2 st False w show ?thesis by simp
      qed
    next
      case False
      from False have "\<not> (0 < sem_count s \<and> sem_waiters s = [])" by (simp add: s1_def)
      from step_Put_wait [OF na wb this, of mf sz]
      have st: "step mf ev s = s1\<lparr>sem_waiters := sem_waiters s1 @ [(n, sink_pos s, sz)]\<rparr>"
        by (simp add: Put s1_def n_def)
      have "sink_inv (sem_waiters s @ [(n, sink_pos s, sz)])
            (s1\<lparr>sem_waiters := sem_waiters s1 @ [(n, sink_pos s, sz)]\<rparr>) =
          sink_inv (sem_waiters s @ [(n, sink_pos s, sz)]) s1"
        by (rule sink_inv_cong) simp_all
      with i1 show ?thesis unfolding st by (simp add: s1_def)
    qed
  next
    case (Complete k e)
    show ?thesis
    proof (cases "k < length (writes s) \<and> snd (writes s ! k) = None")
      case False
      with na have "step mf ev s = s" by (auto simp: step_def Complete)
      with inv show ?thesis by simp
    next
      case True
      define s1 where "s1 = s\<lparr>writes := (writes s)[k := (fst (writes s ! k), Some e)]\<rparr>"
      have i1: "sink_inv (sem_waiters s1) s1"
        using sink_inv_complete [OF inv, of k "(fst (writes s ! k), Some e)"] True
        by (simp add: s1_def)
      define s2 where "s2 = (if mf then run_merges s1 else s1)"
      have w2: "sem_waiters s2 = sem_waiters s1" by (simp add: s2_def run_merges_frame)
      have i2: "sink_inv (sem_waiters s1) s2"
        using i1 by (simp add: s2_def run_merges_inv)
      define s3 where "s3 = signal (sem_waiters s1) s2"
      have st: "step mf ev s = run_merges s3"
        using na wb True by (simp add: step_def Complete Let_def s1_def s2_def s3_def)
      show ?thesis
      proof (intro impI)
        assume "\<not> aborted (step mf ev s)"
        then have "\<not> aborted s3" by (simp add: st run_merges_frame)
        with signal_inv [OF i2] have "sink_inv (sem_waiters s3) s3" by (simp add: s3_def)
        then have "sink_inv (sem_waiters s3) (run_merges s3)" by (rule run_merges_inv)
        then show "sink_inv (sem_waiters (step mf ev s)) (step mf ev s)"
          by (simp add: st run_merges_frame)
      qed
    qed
  qed
qed

lemma merge_done:
  "unmerged (fst (merge ws e1 ks fl)) = k # ks' \<Longrightarrow> k < length ws \<Longrightarrow>
     snd (ws ! k) = None"
proof (induction ks arbitrary: e1 fl)
  case Nil
  then show ?case by simp
next
  case (Cons k0 ks)
  show ?case
  proof (cases "if k0 < length ws then snd (ws ! k0) else None")
    case None
    with Cons.prems(1) have "k = k0" by simp
    with None Cons.prems(2) show ?thesis by simp
  next
    case (Some e2)
    show ?thesis
    proof (cases e1)
      case (Failed e)
      with Some Cons.prems(1) have "unmerged (fst (merge ws e1 ks fl)) = k # ks'" by simp
      then show ?thesis using Cons.prems(2) by (rule Cons.IH)
    next
      case (Ready u)
      show ?thesis
      proof (cases e2)
        case (Failed e)
        with Some Ready Cons.prems(1) have "unmerged (fst (merge ws e2 ks True)) = k # ks'" by simp
        then show ?thesis using Cons.prems(2) by (rule Cons.IH)
      next
        case r2: (Ready u')
        with Some Ready Cons.prems(1) have "unmerged (fst (merge ws e2 ks fl)) = k # ks'" by simp
        then show ?thesis using Cons.prems(2) by (rule Cons.IH)
      qed
    qed
  qed
qed

lemma run_merges_done: "merges_done (run_merges s)"
proof -
  obtain c fl where m: "merge_chain (background_writes_done s) s = (c, fl)"
    by (cases "merge_chain (background_writes_done s) s")
  obtain rs fl' where mr: "merge_returned (puts s) (s\<lparr>failed := fl\<rparr>) = (rs, fl')"
    by (cases "merge_returned (puts s) (s\<lparr>failed := fl\<rparr>)")
  have rm: "background_writes_done (run_merges s) = c" "writes (run_merges s) = writes s"
    using m mr by (simp_all add: run_merges_def)
  from m have "c = fst (merge (writes s) (resolved (background_writes_done s))
      (unmerged (background_writes_done s)) (failed s))"
    by (simp add: merge_chain_def)
  then have "\<forall>k ks. unmerged c = k # ks \<longrightarrow>
      k < length (writes s) \<longrightarrow> snd (writes s ! k) = None"
    using merge_done by blast
  then show ?thesis unfolding merges_done_def rm by blast
qed

lemma put_continuation_done:
  assumes inv: "sink_inv ((n, p, sz) # ws) s" and md: "merges_done s"
    and na: "\<not> aborted (fst (put_continuation n p sz s))"
  shows "merges_done (fst (put_continuation n p sz s))"
proof (cases "failed s")
  case True
  from inv have n: "n < length (puts s)"
    and i2: "\<forall>i < length (puts s). is_accumulated (puts s ! i) \<longrightarrow> i < n"
    unfolding sink_inv_def by auto
  have "puts (fst (put_continuation n p sz s)) =
      (puts s)[n := Background_writes (background_writes_done s)]"
    using True by (simp add: put_continuation_def)
  then have "accumulated (puts (fst (put_continuation n p sz s))) \<noteq> []"
    using n i2 by (simp add: accumulated_update_last)
  then show ?thesis by (simp add: merges_done_def)
next
  case False
  have nab: "\<not> aborted (do_put p sz s)"
    using na False by (auto simp: put_continuation_def Let_def split: if_splits)
  then obtain x where dp: "do_put p sz s = s\<lparr>writes := writes s @ [(x, None)]\<rparr>"
    by (auto simp: do_put_def Let_def split: if_splits)
  define s' where "s' = s\<lparr>writes := writes s @ [(x, None)],
      background_writes_done := (background_writes_done s)
         \<lparr>unmerged := unmerged (background_writes_done s) @ [length (writes s)]\<rparr>,
      puts := (puts s)[n := Ready_future]\<rparr>"
  have pc: "fst (put_continuation n p sz s) = s'"
    using False nab dp by (simp add: put_continuation_def Let_def s'_def)
  from inv False have e: "accumulated (puts s) = []"
    unfolding sink_inv_def by blast
  have "snd (writes s' ! k) = None"
    if u: "unmerged (background_writes_done s') = k # ks" and kl: "k < length (writes s')" for k ks
  proof (cases "unmerged (background_writes_done s)")
    case Nil
    with u have "k = length (writes s)" by (simp add: s'_def)
    then show ?thesis by (simp add: s'_def)
  next
    case (Cons k0 ks0)
    with u have "k = k0" by (simp add: s'_def)
    with md e Cons have "k < length (writes s) \<longrightarrow> snd (writes s ! k) = None"
      by (simp add: merges_done_def)
    with kl show ?thesis by (cases "k < length (writes s)") (simp_all add: s'_def nth_append)
  qed
  then show ?thesis unfolding pc merges_done_def by blast
qed

lemma step_done:
  assumes inv: "sink_inv (sem_waiters s) s" and md: "merges_done s"
    and na: "\<not> aborted s" and wb: "write_behind s \<noteq> 0"
  shows "\<not> aborted (step mf ev s) \<longrightarrow> merges_done (step mf ev s)"
proof (cases ev)
  case (Put sz)
  define n where "n = length (puts s)"
  define s1 where "s1 = s\<lparr>sink_pos := sink_pos s + sz, puts := puts s @ [Waiting_for_semaphore]\<rparr>"
  have md1: "merges_done s1"
    using md by (simp add: merges_done_def s1_def accumulated_append)
  show ?thesis
  proof (cases "0 < sem_count s1 \<and> sem_waiters s1 = []")
    case True
    define s1' where "s1' = s1\<lparr>sem_count := sem_count s1 - 1\<rparr>"
    obtain s2 gb where pc: "put_continuation n (sink_pos s) sz s1' = (s2, gb)"
      by (cases "put_continuation n (sink_pos s) sz s1'")
    have st: "step mf ev s =
        (if aborted s2 then s2 else if gb then s2\<lparr>sem_count := Suc (sem_count s2)\<rparr> else s2)"
      using na wb True pc by (simp add: step_def Put Let_def s1_def s1'_def n_def)
    have "sem_waiters s = []" using True by (simp add: s1_def)
    with sink_inv_new_put [OF inv, of "sink_pos s" sz]
    have "sink_inv [(n, sink_pos s, sz)] (s\<lparr>puts := puts s @ [Waiting_for_semaphore]\<rparr>)"
      by (simp add: n_def)
    moreover have "sink_inv [(n, sink_pos s, sz)] s1' =
        sink_inv [(n, sink_pos s, sz)] (s\<lparr>puts := puts s @ [Waiting_for_semaphore]\<rparr>)"
      by (rule sink_inv_cong) (simp_all add: s1'_def s1_def)
    ultimately have i: "sink_inv ((n, sink_pos s, sz) # []) s1'" by simp
    have md1': "merges_done s1'" using md1 by (simp add: merges_done_def s1'_def)
    show ?thesis
    proof (cases "aborted s2")
      case True
      with st show ?thesis by simp
    next
      case False
      with put_continuation_done [OF i md1'] pc have "merges_done s2" by simp
      then have "merges_done (s2\<lparr>sem_count := Suc (sem_count s2)\<rparr>)"
        by (simp add: merges_done_def)
      with \<open>merges_done s2\<close> st False show ?thesis by simp
    qed
  next
    case False
    then have "\<not> (0 < sem_count s \<and> sem_waiters s = [])" by (simp add: s1_def)
    from step_Put_wait [OF na wb this, of mf sz]
    have "step mf ev s = s1\<lparr>sem_waiters := sem_waiters s1 @ [(n, sink_pos s, sz)]\<rparr>"
      by (simp add: Put s1_def n_def)
    with md1 show ?thesis by (simp add: merges_done_def)
  qed
next
  case (Complete k e)
  show ?thesis
  proof (cases "k < length (writes s) \<and> snd (writes s ! k) = None")
    case False
    with na have "step mf ev s = s" by (auto simp: step_def Complete)
    with md show ?thesis by simp
  next
    case True
    then have "\<exists>s3. step mf ev s = run_merges s3"
      using na wb by (auto simp: step_def Complete Let_def)
    then show ?thesis using run_merges_done by auto
  qed
qed

lemma run_inv_done:
  assumes "\<not> aborted s \<longrightarrow> sink_inv (sem_waiters s) s \<and> merges_done s" and "write_behind s \<noteq> 0"
  shows "\<not> aborted (run mf evs s) \<longrightarrow>
     sink_inv (sem_waiters (run mf evs s)) (run mf evs s) \<and> merges_done (run mf evs s)"
  using assms
proof (induction evs arbitrary: s)
  case Nil
  then show ?case by (simp add: run_def)
next
  case (Cons ev evs)
  have "\<not> aborted (step mf ev s) \<longrightarrow>
      sink_inv (sem_waiters (step mf ev s)) (step mf ev s) \<and> merges_done (step mf ev s)"
  proof (cases "aborted s")
    case True
    then show ?thesis by (simp add: step_def)
  next
    case False
    with Cons.prems(1) have i: "sink_inv (sem_waiters s) s" and d: "merges_done s" by simp_all
    from step_inv [of s mf ev] i Cons.prems(2) step_done [OF i d False Cons.prems(2), of mf ev]
    show ?thesis by simp
  qed
  moreover have "write_behind (step mf ev s) \<noteq> 0"
    using Cons.prems(2) by (simp add: step_write_behind)
  ultimately have "\<not> aborted (run mf evs (step mf ev s)) \<longrightarrow>
      sink_inv (sem_waiters (run mf evs (step mf ev s))) (run mf evs (step mf ev s)) \<and>
      merges_done (run mf evs (step mf ev s))"
    by (rule Cons.IH)
  then show ?case by (simp add: run_def)
qed

lemma reachable_inv_done:
  assumes "behind \<noteq> 0" and "\<not> aborted (run mf evs (file_data_sink_impl alignment behind))"
  shows "sink_inv (sem_waiters (run mf evs (file_data_sink_impl alignment behind)))
           (run mf evs (file_data_sink_impl alignment behind)) \<and>
         merges_done (run mf evs (file_data_sink_impl alignment behind))"
proof -
  have "sink_inv (sem_waiters (file_data_sink_impl alignment behind)) (file_data_sink_impl alignment behind)"
    using sink_inv_init [of alignment behind] by (simp add: file_data_sink_impl_def)
  moreover have "merges_done (file_data_sink_impl alignment behind)"
    by (simp add: merges_done_def file_data_sink_impl_def)
  moreover have "write_behind (file_data_sink_impl alignment behind) \<noteq> 0"
    using assms(1) by (simp add: file_data_sink_impl_def)
  ultimately show ?thesis using run_inv_done [of "file_data_sink_impl alignment behind"] assms(2)
    by blast
qed

lemma first_failed_unique:
  "first_failed ws k e \<Longrightarrow> first_failed ws k' e' \<Longrightarrow> k = k' \<and> e = e'"
proof -
  assume a: "first_failed ws k e" and b: "first_failed ws k' e'"
  have "k = k'"
  proof (rule ccontr)
    assume "k \<noteq> k'"
    then consider "k < k'" | "k' < k" by linarith
    then show False
    proof cases
      case 1
      with a b show False by (auto simp: first_failed_def)
    next
      case 2
      with a b show False by (auto simp: first_failed_def)
    qed
  qed
  with a b show ?thesis by (auto simp: first_failed_def)
qed

lemma failed_iff_first_failed:
  assumes inv: "sink_inv ws s" and md: "merges_done s" and e: "accumulated (puts s) = []"
  shows "(failed s \<longleftrightarrow> (\<exists>k e. first_failed (writes s) k e)) \<and>
         (\<forall>k e. first_failed (writes s) k e \<longrightarrow> resolved (background_writes_done s) = Failed e)"
proof -
  from inv e have ok: "chain_ok (writes s) (background_writes_done s)"
    and f: "failed s \<longleftrightarrow> resolved (background_writes_done s) \<noteq> Ready ()"
    unfolding sink_inv_def by blast+
  from ok obtain m where m: "m \<le> length (writes s)"
    and u: "unmerged (background_writes_done s) = [m..<length (writes s)]"
    and r: "case resolved (background_writes_done s) of
              Ready u \<Rightarrow> (\<forall>j < m. snd (writes s ! j) = Some (Ready ()))
            | Failed e \<Rightarrow> (\<exists>k < m. first_failed (writes s) k e)"
    unfolding chain_ok_def by auto
  have none: "snd (writes s ! m) = None" if "m < length (writes s)"
  proof -
    from that u have "unmerged (background_writes_done s) = m # [Suc m..<length (writes s)]"
      by (simp add: upt_conv_Cons)
    with md e that show ?thesis unfolding merges_done_def by auto
  qed
  have held: "resolved (background_writes_done s) = Failed e'"
    if ff: "first_failed (writes s) k e'" for k e'
  proof -
    have "k < m"
    proof (rule ccontr)
      assume "\<not> k < m"
      then have mk: "m \<le> k" by simp
      with ff have ml: "m < length (writes s)" by (simp add: first_failed_def)
      from ff mk have "snd (writes s ! m) \<noteq> None"
        by (cases "m = k") (auto simp: first_failed_def)
      with none [OF ml] show False by simp
    qed
    show ?thesis
    proof (cases "resolved (background_writes_done s)")
      case (Ready u)
      with r \<open>k < m\<close> have "snd (writes s ! k) = Some (Ready ())" by simp
      with ff show ?thesis by (simp add: first_failed_def)
    next
      case (Failed e0)
      with r obtain k0 where "first_failed (writes s) k0 e0" by auto
      from first_failed_unique [OF this ff] Failed show ?thesis by simp
    qed
  qed
  have "\<exists>k e. first_failed (writes s) k e" if "failed s"
  proof -
    from that f obtain e0 where "resolved (background_writes_done s) = Failed e0"
      by (cases "resolved (background_writes_done s)") simp_all
    with r show ?thesis by auto
  qed
  moreover have "failed s" if "\<exists>k e. first_failed (writes s) k e"
    using that held f by auto
  ultimately show ?thesis using held by blast
qed

lemma run_write_behind: "write_behind (run mf evs s) = write_behind s"
proof (induction evs arbitrary: s)
  case Nil
  show ?case by (simp add: run_def)
next
  case (Cons ev evs)
  have "run mf (ev # evs) s = run mf evs (step mf ev s)" by (simp add: run_def)
  with Cons.IH [of "step mf ev s"] show ?case by (simp add: step_write_behind)
qed

text \<open>
  Claim C10, as amended. With write-behind enabled, in every state that calls of \<^verbatim>\<open>put\<close>
  and completions of writes lead to, in whichever order the continuations run, and as long
  as no \<^verbatim>\<open>assert\<close> has aborted the program:
  \<^item> while no call has taken \<^verbatim>\<open>_background_writes_done\<close>, \<^verbatim>\<open>_failed\<close> is set exactly when
    a write has failed and every write issued before it has finished well, and then
    \<^verbatim>\<open>_background_writes_done\<close> holds the failure of that write, the earliest issued of
    the writes that failed;
  \<^item> once \<^verbatim>\<open>_failed\<close> is set it stays set, and no \<^verbatim>\<open>dma_write\<close> is issued any more;
  \<^item> a \<^verbatim>\<open>put\<close> that finds the flag set and a unit of the semaphore free returns the
    accumulated \<^verbatim>\<open>_background_writes_done\<close> and leaves a ready future in its place;
  \<^item> of the futures that calls of \<^verbatim>\<open>put\<close> have taken so, the first holds that failure,
    and every later one is a ready future.
\<close>

theorem put_after_failed_write:
  assumes "behind \<noteq> 0"
    and "s = run merges_first evs (file_data_sink_impl alignment behind)"
    and "\<not> aborted s"
  shows
   "(accumulated (puts s) = [] \<longrightarrow>
       (failed s \<longleftrightarrow> (\<exists>k e. first_failed (writes s) k e)) \<and>
       (\<forall>k e. first_failed (writes s) k e \<longrightarrow>
          resolved (background_writes_done s) = Failed e)) \<and>
    (failed s \<longrightarrow>
       failed (run merges_first evs' s) \<and>
       map fst (writes (run merges_first evs' s)) = map fst (writes s)) \<and>
    (failed s \<and> 0 < sem_count s \<and> sem_waiters s = [] \<longrightarrow>
       step merges_first (Put sz) s =
         s\<lparr>sink_pos := sink_pos s + sz,
           puts := puts s @ [Background_writes (background_writes_done s)],
           background_writes_done := \<lparr>resolved = Ready (), unmerged = []\<rparr>\<rparr>) \<and>
    (accumulated (puts s) \<noteq> [] \<longrightarrow>
       failed s \<and>
       (\<exists>c cs k e. accumulated (puts s) = c # cs \<and> resolved c = Failed e \<and>
           first_failed (writes s) k e \<and>
           (\<forall>c' \<in> set cs. c' = \<lparr>resolved = Ready (), unmerged = []\<rparr>)))"
proof -
  from reachable_inv_done [OF assms(1), of merges_first evs alignment] assms(2,3)
  have inv: "sink_inv (sem_waiters s) s" and md: "merges_done s" by simp_all
  have wb: "write_behind s \<noteq> 0"
    using assms(1) unfolding assms(2) by (simp add: run_write_behind file_data_sink_impl_def)
  have c1: "(failed s \<longleftrightarrow> (\<exists>k e. first_failed (writes s) k e)) \<and>
       (\<forall>k e. first_failed (writes s) k e \<longrightarrow>
          resolved (background_writes_done s) = Failed e)"
    if "accumulated (puts s) = []"
    using inv md that by (rule failed_iff_first_failed)
  have c2: "failed (run merges_first evs' s) \<and>
       map fst (writes (run merges_first evs' s)) = map fst (writes s)" if "failed s"
    using run_failed [OF that wb, of merges_first evs'] by simp
  have c3: "step merges_first (Put sz) s =
         s\<lparr>sink_pos := sink_pos s + sz,
           puts := puts s @ [Background_writes (background_writes_done s)],
           background_writes_done := \<lparr>resolved = Ready (), unmerged = []\<rparr>\<rparr>"
    if "failed s \<and> 0 < sem_count s \<and> sem_waiters s = []"
    using that wb assms(3) by (intro put_after_failure) simp_all
  have c4: "failed s \<and>
       (\<exists>c cs k e. accumulated (puts s) = c # cs \<and> resolved c = Failed e \<and>
           first_failed (writes s) k e \<and>
           (\<forall>c' \<in> set cs. c' = \<lparr>resolved = Ready (), unmerged = []\<rparr>))"
    if "accumulated (puts s) \<noteq> []"
    using inv that unfolding sink_inv_def by blast
  from c1 c2 c3 c4 show ?thesis by blast
qed

lemmas sink_defs = run_def step_def file_data_sink_impl_def put_continuation_def do_put_def
  misaligned_def align_up_def run_merges_def merge_chain_def Let_def

theorem put_after_failed_write_witness:
  "(1::nat) \<noteq> 0 \<and>
   \<not> aborted (run False [Put 4096, Complete 0 (Failed Expected_exception)] (file_data_sink_impl 4096 1)) \<and>
   accumulated (puts (run False [Put 4096, Complete 0 (Failed Expected_exception)]
      (file_data_sink_impl 4096 1))) = [] \<and>
   first_failed (writes (run False [Put 4096, Complete 0 (Failed Expected_exception)]
      (file_data_sink_impl 4096 1))) 0 Expected_exception \<and>
   failed (run False [Put 4096, Complete 0 (Failed Expected_exception)] (file_data_sink_impl 4096 1)) \<and>
   resolved (background_writes_done (run False [Put 4096, Complete 0 (Failed Expected_exception)]
      (file_data_sink_impl 4096 1))) = Failed Expected_exception \<and>
   failed (run False [Put 4096, Put 100, Complete 1 (Ready ())]
      (run False [Put 4096, Complete 0 (Failed Expected_exception)] (file_data_sink_impl 4096 1))) \<and>
   map fst (writes (run False [Put 4096, Put 100, Complete 1 (Ready ())]
      (run False [Put 4096, Complete 0 (Failed Expected_exception)] (file_data_sink_impl 4096 1)))) =
     [\<lparr>write_pos = 0, write_size = 4096, truncate_after = False\<rparr>] \<and>
   puts (step False (Put 4096)
      (run False [Put 4096, Complete 0 (Failed Expected_exception)] (file_data_sink_impl 4096 1))) =
     [Ready_future, Background_writes \<lparr>resolved = Failed Expected_exception, unmerged = []\<rparr>] \<and>
   background_writes_done (step False (Put 4096)
      (run False [Put 4096, Complete 0 (Failed Expected_exception)] (file_data_sink_impl 4096 1))) =
     \<lparr>resolved = Ready (), unmerged = []\<rparr> \<and>
   \<not> aborted (run True [Put 4096, Put 4096, Put 4096, Complete 0 (Failed Expected_exception)]
      (file_data_sink_impl 4096 1)) \<and>
   accumulated (puts (run True [Put 4096, Put 4096, Put 4096, Complete 0 (Failed Expected_exception)]
      (file_data_sink_impl 4096 1))) =
     [\<lparr>resolved = Failed Expected_exception, unmerged = []\<rparr>,
      \<lparr>resolved = Ready (), unmerged = []\<rparr>] \<and>
   failed (run True [Put 4096, Put 4096, Put 4096, Complete 0 (Failed Expected_exception)]
      (file_data_sink_impl 4096 1))"
proof -
  define s0 where
    "s0 = run False [Put 4096, Complete 0 (Failed Expected_exception)] (file_data_sink_impl 4096 1)"
  have v: "s0 = \<lparr>write_behind = 1, disk_write_dma_alignment = 4096, sink_pos = 4096,
      sem_count = 1, sem_waiters = [],
      background_writes_done = \<lparr>resolved = Failed Expected_exception, unmerged = []\<rparr>,
      failed = True,
      writes = [(\<lparr>write_pos = 0, write_size = 4096, truncate_after = False\<rparr>,
                 Some (Failed Expected_exception))],
      puts = [Ready_future], aborted = False\<rparr>"
    unfolding s0_def by (simp add: sink_defs)
  have h1: "(1::nat) \<noteq> 0" by simp
  have h2: "s0 = run False [Put 4096, Complete 0 (Failed Expected_exception)] (file_data_sink_impl 4096 1)"
    by (simp only: s0_def)
  have h3: "\<not> aborted s0" by (simp add: v)
  have e: "accumulated (puts s0) = []" by (simp add: v)
  have ff: "first_failed (writes s0) 0 Expected_exception" by (simp add: v first_failed_def)
  have sem: "0 < sem_count s0 \<and> sem_waiters s0 = []" by (simp add: v)
  note t = put_after_failed_write [OF h1 h2 h3, of "[Put 4096, Put 100, Complete 1 (Ready ())]" 4096]
  note t1 = t [THEN conjunct1, rule_format, OF e]
  from t1 ff have f: "failed s0" by blast
  from t1 ff have r: "resolved (background_writes_done s0) = Failed Expected_exception" by blast
  note t2 = t [THEN conjunct2, THEN conjunct1, rule_format, OF f]
  from t2 have c2: "map fst (writes (run False [Put 4096, Put 100, Complete 1 (Ready ())] s0)) =
      [\<lparr>write_pos = 0, write_size = 4096, truncate_after = False\<rparr>]" by (simp add: v)
  from f sem have "failed s0 \<and> 0 < sem_count s0 \<and> sem_waiters s0 = []" by simp
  note t3 = t [THEN conjunct2, THEN conjunct2, THEN conjunct1, rule_format, OF this]
  from t3 have c3: "puts (step False (Put 4096) s0) =
       [Ready_future, Background_writes \<lparr>resolved = Failed Expected_exception, unmerged = []\<rparr>]"
    and c4: "background_writes_done (step False (Put 4096) s0) = \<lparr>resolved = Ready (), unmerged = []\<rparr>"
    by (simp_all add: v)
  define s1 where
    "s1 = run True [Put 4096, Put 4096, Put 4096, Complete 0 (Failed Expected_exception)]
            (file_data_sink_impl 4096 1)"
  have g2: "s1 = run True [Put 4096, Put 4096, Put 4096, Complete 0 (Failed Expected_exception)]
            (file_data_sink_impl 4096 1)"
    by (simp only: s1_def)
  have g3: "\<not> aborted s1" unfolding s1_def by (simp add: sink_defs)
  have a1: "accumulated (puts s1) =
     [\<lparr>resolved = Failed Expected_exception, unmerged = []\<rparr>,
      \<lparr>resolved = Ready (), unmerged = []\<rparr>]"
    unfolding s1_def by (simp add: sink_defs)
  then have ne: "accumulated (puts s1) \<noteq> []" by simp
  note u = put_after_failed_write [OF h1 g2 g3, of "[]" 0]
  note u4 = u [THEN conjunct2, THEN conjunct2, THEN conjunct2, rule_format, OF ne]
  from h1 h3 e ff f r t2 [THEN conjunct1] c2 c3 c4 g3 a1 u4 [THEN conjunct1]
  show ?thesis unfolding s0_def s1_def by (intro conjI)
qed

text \<open>
  Claim C10 as stated fails. With two writes behind, the second write fails while the
  first is still in flight: its merge has to wait for the first, \<^verbatim>\<open>_failed\<close> is not set,
  and the next \<^verbatim>\<open>put\<close> issues a third write. And with one write behind, of the two calls
  of \<^verbatim>\<open>put\<close> that follow a failed write the first returns the failure, and the second a
  ready future.
\<close>

theorem put_after_failed_write_counterexample:
  "map snd (writes (run False [Put 4096, Put 4096, Complete 1 (Failed Expected_exception), Put 4096]
      (file_data_sink_impl 4096 2))) = [None, Some (Failed Expected_exception), None] \<and>
   \<not> failed (run False [Put 4096, Put 4096, Complete 1 (Failed Expected_exception), Put 4096]
      (file_data_sink_impl 4096 2)) \<and>
   map snd (writes (run True [Put 4096, Put 4096, Complete 1 (Failed Expected_exception), Put 4096]
      (file_data_sink_impl 4096 2))) = [None, Some (Failed Expected_exception), None] \<and>
   \<not> failed (run True [Put 4096, Put 4096, Complete 1 (Failed Expected_exception), Put 4096]
      (file_data_sink_impl 4096 2)) \<and>
   puts (run True [Put 4096, Complete 0 (Failed Expected_exception), Put 4096, Put 4096]
      (file_data_sink_impl 4096 1)) =
     [Ready_future,
      Background_writes \<lparr>resolved = Failed Expected_exception, unmerged = []\<rparr>,
      Background_writes \<lparr>resolved = Ready (), unmerged = []\<rparr>]"
  by (simp add: sink_defs)

section \<open>Timers and \<^verbatim>\<open>sleep\<close>\<close>

text \<open>
  A \<^verbatim>\<open>timer<Clock>\<close> with the fields that \<^verbatim>\<open>core/reactor.hh\<close> sets, instants and durations
  being ticks of the clock.
\<close>

record timer =
  period :: "nat option"
  armed :: bool
  queued :: bool
  expired :: bool
  expiry :: nat

text \<open>
  The reactor as far as one timer sees it: the clock, the timer, whether the timer is in
  the reactor's timer set, and the instants at which the callback of the timer has run.
\<close>

record engine =
  now :: nat
  tmr :: timer
  in_timer_set :: bool
  callback_runs :: "nat list"

text \<open>\<^verbatim>\<open>timer::arm_state\<close>; the \<^verbatim>\<open>assert\<close> that the timer is not armed aborts, which is \<open>None\<close>.\<close>

definition arm_state :: "nat \<Rightarrow> nat option \<Rightarrow> timer \<Rightarrow> timer option" where
  "arm_state until per t =
     (if armed t then None
      else Some (t\<lparr>period := per, armed := True, expired := False, expiry := until,
                   queued := True\<rparr>))"

text \<open>
  Modelled from the spec: \<^verbatim>\<open>reactor::add_timer\<close>, \<^verbatim>\<open>queue_timer\<close> and \<^verbatim>\<open>del_timer\<close> are
  defined in \<^verbatim>\<open>core/reactor.cc\<close>, which is not among the sources; they insert the timer
  into the timer set of its clock and remove it.
\<close>

definition add_timer :: "engine \<Rightarrow> engine" where
  "add_timer e = e\<lparr>in_timer_set := True\<rparr>"

definition queue_timer :: "engine \<Rightarrow> engine" where
  "queue_timer e = e\<lparr>in_timer_set := True\<rparr>"

definition del_timer :: "engine \<Rightarrow> engine" where
  "del_timer e = e\<lparr>in_timer_set := False\<rparr>"

text \<open>\<^verbatim>\<open>timer::arm(until, period)\<close> and \<^verbatim>\<open>timer::arm(delta)\<close>.\<close>

definition arm :: "nat \<Rightarrow> nat option \<Rightarrow> engine \<Rightarrow> engine option" where
  "arm until per e =
     (case arm_state until per (tmr e) of
        None \<Rightarrow> None
      | Some t \<Rightarrow> Some (add_timer (e\<lparr>tmr := t\<rparr>)))"

definition arm_delta :: "nat \<Rightarrow> engine \<Rightarrow> engine option" where
  "arm_delta delta e = arm (now e + delta) None e"

text \<open>\<^verbatim>\<open>timer::readd_periodic\<close>, called for a timer that has a period.\<close>

definition readd_periodic :: "engine \<Rightarrow> engine option" where
  "readd_periodic e =
     (case period (tmr e) of
        None \<Rightarrow> None
      | Some p \<Rightarrow>
          (case arm_state (now e + p) (Some p) (tmr e) of
             None \<Rightarrow> None
           | Some t \<Rightarrow> Some (queue_timer (e\<lparr>tmr := t\<rparr>))))"

text \<open>\<^verbatim>\<open>timer::cancel\<close>, with the value it returns.\<close>

definition cancel :: "engine \<Rightarrow> bool \<times> engine" where
  "cancel e =
     (if \<not> armed (tmr e) then (False, e)
      else
        (let e1 = e\<lparr>tmr := (tmr e)\<lparr>armed := False\<rparr>\<rparr>
         in if queued (tmr e1)
            then (True, (del_timer e1)\<lparr>tmr := (tmr e1)\<lparr>queued := False\<rparr>\<rparr>)
            else (True, e1)))"

text \<open>
  Modelled from the spec: the reactor's handling of expired timers is defined in
  \<^verbatim>\<open>core/reactor.cc\<close> and \<^verbatim>\<open>core/timer-set.hh\<close>, which are not among the sources. In each
  turn of its loop the reactor handles the expired timers, those of the timer set whose
  expiry is not after the clock's reading: such a timer leaves the set, and if it is armed
  it is disarmed, re-arms itself if it has a period, and its callback runs.
\<close>

definition complete_timers :: "engine \<Rightarrow> engine option" where
  "complete_timers e =
     (if in_timer_set e \<and> expiry (tmr e) \<le> now e
      then
        (let e1 = e\<lparr>tmr := (tmr e)\<lparr>expired := True, queued := False\<rparr>, in_timer_set := False\<rparr>
         in if armed (tmr e1)
            then
              (let e2 = e1\<lparr>tmr := (tmr e1)\<lparr>armed := False\<rparr>\<rparr>
               in case (if period (tmr e2) \<noteq> None then readd_periodic e2 else Some e2) of
                    None \<Rightarrow> None
                  | Some e3 \<Rightarrow> Some (e3\<lparr>callback_runs := callback_runs e3 @ [now e3]\<rparr>))
            else Some e1)
      else Some e)"

text \<open>
  What happens to an armed timer: the clock moves on by some ticks and the reactor takes
  a turn of its loop, or the timer is cancelled.
\<close>

datatype timer_event = Turn nat | Cancel

definition timer_step :: "timer_event \<Rightarrow> engine \<Rightarrow> engine option" where
  "timer_step ev e =
     (case ev of
        Turn d \<Rightarrow> complete_timers (e\<lparr>now := now e + d\<rparr>)
      | Cancel \<Rightarrow> Some (snd (cancel e)))"

fun timer_run :: "timer_event list \<Rightarrow> engine \<Rightarrow> engine option" where
  "timer_run [] e = Some e"
| "timer_run (ev # evs) e =
     (case timer_step ev e of None \<Rightarrow> None | Some e' \<Rightarrow> timer_run evs e')"

text \<open>
  \<^verbatim>\<open>sleep(dur)\<close> of \<^verbatim>\<open>core/sleep.hh\<close>: a new timer whose callback fulfils the promise \<^verbatim>\<open>done\<close>
  is armed with \<^verbatim>\<open>tmr.arm(dur)\<close>; the future returned is that of \<^verbatim>\<open>done\<close>, so the instants
  at which it can be ready are those at which the callback has run.
\<close>

definition new_timer :: timer where
  "new_timer = \<lparr>period = None, armed = False, queued = False, expired = False, expiry = 0\<rparr>"

definition sleep :: "nat \<Rightarrow> nat \<Rightarrow> engine option" where
  "sleep clock dur =
     arm_delta dur \<lparr>now = clock, tmr = new_timer, in_timer_set = False, callback_runs = []\<rparr>"

text \<open>
  What holds of a timer that was armed once with expiry \<open>t\<close> and no period, when the
  callback had run at the instants \<open>base\<close> before: while it is armed it is in the timer set
  and the callback has not run again; afterwards it is out of the set, and the callback
  has run at most once more, not before \<open>t\<close>.
\<close>

definition one_shot :: "nat \<Rightarrow> nat list \<Rightarrow> engine \<Rightarrow> bool" where
  "one_shot t base e \<longleftrightarrow>
     period (tmr e) = None \<and> queued (tmr e) = in_timer_set e \<and>
     (if armed (tmr e)
      then in_timer_set e \<and> expiry (tmr e) = t \<and> callback_runs e = base
      else \<not> in_timer_set e \<and>
           (\<exists>new. callback_runs e = base @ new \<and> length new \<le> 1 \<and> (\<forall>c \<in> set new. t \<le> c)))"

text \<open>The same, for a timer that has not been cancelled and has seen a turn of the loop.\<close>

definition pending_or_fired :: "nat \<Rightarrow> nat list \<Rightarrow> engine \<Rightarrow> bool" where
  "pending_or_fired t base e \<longleftrightarrow>
     period (tmr e) = None \<and> queued (tmr e) = in_timer_set e \<and>
     (if armed (tmr e)
      then in_timer_set e \<and> expiry (tmr e) = t \<and> callback_runs e = base \<and> now e < t
      else \<not> in_timer_set e \<and> (\<exists>c. callback_runs e = base @ [c] \<and> t \<le> c))"

lemma arm_one_shot:
  assumes "arm t None e = Some e1"
  shows "one_shot t (callback_runs e) e1" and "armed (tmr e1)" and "now e1 = now e"
  using assms
  by (auto simp: arm_def arm_state_def add_timer_def one_shot_def split: if_splits option.splits)

lemma step_one_shot:
  assumes "one_shot t base e"
  shows "\<exists>e'. timer_step ev e = Some e' \<and> one_shot t base e'"
proof (cases ev)
  case (Turn d)
  with assms show ?thesis
    by (auto simp: timer_step_def complete_timers_def one_shot_def Let_def)
next
  case Cancel
  with assms show ?thesis
    by (auto simp: timer_step_def cancel_def del_timer_def one_shot_def Let_def)
qed

lemma run_one_shot:
  "one_shot t base e \<Longrightarrow> \<exists>e'. timer_run evs e = Some e' \<and> one_shot t base e'"
proof (induction evs arbitrary: e)
  case Nil
  then show ?case by simp
next
  case (Cons ev evs)
  from step_one_shot [OF Cons.prems, of ev] obtain e1 where
    "timer_step ev e = Some e1" "one_shot t base e1" by blast
  with Cons.IH [of e1] show ?case by simp
qed

lemma turn_pending_or_fired:
  assumes "one_shot t base e" and "armed (tmr e) \<or> pending_or_fired t base e"
  shows "\<exists>e'. timer_step (Turn d) e = Some e' \<and> pending_or_fired t base e' \<and>
              now e' = now e + d"
  using assms
  by (auto simp: timer_step_def complete_timers_def one_shot_def pending_or_fired_def Let_def
      split: if_splits)

lemma pending_or_fired_one_shot: "pending_or_fired t base e \<Longrightarrow> one_shot t base e"
  by (auto simp: pending_or_fired_def one_shot_def split: if_splits)

lemma turns_pending_or_fired:
  "pending_or_fired t base e \<Longrightarrow> Cancel \<notin> set evs \<Longrightarrow>
     \<exists>e'. timer_run evs e = Some e' \<and> pending_or_fired t base e'"
proof (induction evs arbitrary: e)
  case Nil
  then show ?case by simp
next
  case (Cons ev evs)
  from Cons.prems(2) obtain d where ev: "ev = Turn d" by (cases ev) auto
  from turn_pending_or_fired [OF pending_or_fired_one_shot [OF Cons.prems(1)], of d] Cons.prems(1)
  obtain e1 where "timer_step (Turn d) e = Some e1" "pending_or_fired t base e1" by blast
  with Cons.IH [of e1] Cons.prems(2) ev show ?case by simp
qed

lemma armed_turns_pending_or_fired:
  assumes "one_shot t base e" and "armed (tmr e)" and "Cancel \<notin> set evs" and "evs \<noteq> []"
  shows "\<exists>e'. timer_run evs e = Some e' \<and> pending_or_fired t base e'"
proof -
  from assms(4) obtain ev evs' where evs: "evs = ev # evs'" by (cases evs) auto
  with assms(3) obtain d where ev: "ev = Turn d" by (cases ev) auto
  from turn_pending_or_fired [OF assms(1), of d] assms(2)
  obtain e1 where s: "timer_step (Turn d) e = Some e1" "pending_or_fired t base e1" by blast
  from turns_pending_or_fired [OF s(2), of evs'] assms(3) evs
  obtain e' where "timer_run evs' e1 = Some e'" "pending_or_fired t base e'" by auto
  with s evs ev show ?thesis by simp
qed

text \<open>
  Claim C5. A timer is armed with expiry \<open>t\<close> and no period. Whatever turns of the reactor's
  loop and cancellations follow, the callback runs at most once, and not before the
  instant \<open>t\<close>; if the timer is not cancelled, the reactor takes a turn, and the clock has
  reached \<open>t\<close>, the callback has run exactly once. In particular a timer that \<^verbatim>\<open>sleep(dur)\<close>
  arms at the instant \<open>clock\<close> runs its callback, which makes the future ready, at most
  once and not before \<open>clock + dur\<close>.
\<close>

theorem one_shot_timer_fires_once:
  "(\<forall>e e1. arm t None e = Some e1 \<longrightarrow>
      (\<exists>e' new.
         timer_run evs e1 = Some e' \<and> callback_runs e' = callback_runs e @ new \<and>
         length new \<le> 1 \<and> (\<forall>c \<in> set new. t \<le> c) \<and>
         (Cancel \<notin> set evs \<and> evs \<noteq> [] \<and> t \<le> now e' \<longrightarrow> length new = 1))) \<and>
   (\<exists>e1 e'.
      sleep clock dur = Some e1 \<and> timer_run evs e1 = Some e' \<and>
      length (callback_runs e') \<le> 1 \<and> (\<forall>c \<in> set (callback_runs e'). clock + dur \<le> c) \<and>
      (Cancel \<notin> set evs \<and> evs \<noteq> [] \<and> clock + dur \<le> now e' \<longrightarrow>
         length (callback_runs e') = 1))"
proof -
  have main: "\<exists>e' new.
         timer_run evs e1 = Some e' \<and> callback_runs e' = callback_runs e @ new \<and>
         length new \<le> 1 \<and> (\<forall>c \<in> set new. u \<le> c) \<and>
         (Cancel \<notin> set evs \<and> evs \<noteq> [] \<and> u \<le> now e' \<longrightarrow> length new = 1)"
    if a: "arm u None e = Some e1" for u e e1
  proof -
    note o = arm_one_shot [OF a]
    from run_one_shot [OF o(1), of evs] obtain e' where
      r: "timer_run evs e1 = Some e'" and q: "one_shot u (callback_runs e) e'" by blast
    from q obtain new where n: "callback_runs e' = callback_runs e @ new" "length new \<le> 1"
      "\<forall>c \<in> set new. u \<le> c"
      by (cases "armed (tmr e')") (auto simp: one_shot_def)
    have "length new = 1" if c: "Cancel \<notin> set evs" "evs \<noteq> []" "u \<le> now e'"
    proof -
      from armed_turns_pending_or_fired [OF o(1) o(2) c(1) c(2)] r
      have "pending_or_fired u (callback_runs e) e'" by simp
      with c(3) n(1) show ?thesis
        by (cases "armed (tmr e')") (auto simp: pending_or_fired_def)
    qed
    with r n show ?thesis by blast
  qed
  define e0 where "e0 = \<lparr>now = clock, tmr = new_timer, in_timer_set = False, callback_runs = []\<rparr>"
  obtain e1 where s: "arm (clock + dur) None e0 = Some e1"
    by (simp add: arm_def arm_state_def new_timer_def e0_def)
  then have sl: "sleep clock dur = Some e1"
    by (simp add: sleep_def arm_delta_def e0_def)
  from main [OF s] obtain e' new where
    "timer_run evs e1 = Some e'" "callback_runs e' = callback_runs e0 @ new"
    "length new \<le> 1" "\<forall>c \<in> set new. clock + dur \<le> c"
    "Cancel \<notin> set evs \<and> evs \<noteq> [] \<and> clock + dur \<le> now e' \<longrightarrow> length new = 1" by blast
  then have "timer_run evs e1 = Some e' \<and>
      length (callback_runs e') \<le> 1 \<and> (\<forall>c \<in> set (callback_runs e'). clock + dur \<le> c) \<and>
      (Cancel \<notin> set evs \<and> evs \<noteq> [] \<and> clock + dur \<le> now e' \<longrightarrow>
         length (callback_runs e') = 1)"
    by (simp add: e0_def)
  with sl main show ?thesis by blast
qed

theorem one_shot_timer_fires_once_witness:
  "arm 130 None \<lparr>now = 100, tmr = new_timer, in_timer_set = False, callback_runs = []\<rparr> =
     Some \<lparr>now = 100,
           tmr = \<lparr>period = None, armed = True, queued = True, expired = False, expiry = 130\<rparr>,
           in_timer_set = True, callback_runs = []\<rparr> \<and>
   (\<exists>e' new.
      timer_run [Turn 10, Turn 25, Turn 100]
        \<lparr>now = 100,
          tmr = \<lparr>period = None, armed = True, queued = True, expired = False, expiry = 130\<rparr>,
          in_timer_set = True, callback_runs = []\<rparr> = Some e' \<and>
      callback_runs e' = [] @ new \<and> length new \<le> 1 \<and> (\<forall>c \<in> set new. 130 \<le> c) \<and>
      (Cancel \<notin> set [Turn 10, Turn 25, Turn 100] \<and> [Turn 10, Turn 25, Turn 100] \<noteq> [] \<and>
       130 \<le> now e' \<longrightarrow> length new = 1))"
proof -
  have h: "arm 130 None \<lparr>now = 100, tmr = new_timer, in_timer_set = False, callback_runs = []\<rparr> =
     Some \<lparr>now = 100,
           tmr = \<lparr>period = None, armed = True, queued = True, expired = False, expiry = 130\<rparr>,
           in_timer_set = True, callback_runs = []\<rparr>"
    by (simp add: arm_def arm_state_def add_timer_def new_timer_def)
  from one_shot_timer_fires_once [of 130 "[Turn 10, Turn 25, Turn 100]", THEN conjunct1,
      rule_format, OF h] h
  show ?thesis by simp
qed

end
